theory Spec2Isabelle
  imports
    Main
    "HOL-Library.Multiset"
    "HOL-Library.AList"
    "HOL-Library.Char_ord"
    "HOL-Library.List_Lexorder"
begin

section \<open>Data model (s3/client.go)\<close>

text \<open>
  \<^verbatim>\<open>type OperationType string\<close> with the two values \<^verbatim>\<open>"PUT"\<close> and \<^verbatim>\<open>"DELETE"\<close>;
  the zero value of the type is the empty string.
\<close>

type_synonym OperationType = string

definition OperationTypePut :: OperationType where
  "OperationTypePut = ''PUT''"

definition OperationTypeDelete :: OperationType where
  "OperationTypeDelete = ''DELETE''"

text \<open>
  \<^verbatim>\<open>type ObjectVersion struct\<close>. A \<^verbatim>\<open>time.Time\<close> is modelled by the instant it
  denotes, an integer count of time units from Go's zero time; \<^verbatim>\<open>Before\<close> is \<open><\<close>
  and \<^verbatim>\<open>Equal\<close> is \<open>=\<close> on instants. Strings compare bytewise, which is the
  lexicographic order on \<^typ>\<open>char list\<close>.
\<close>

record ObjectVersion =
  VersionID :: string
  Operation :: OperationType
  Timestamp :: int
  IsLatest :: bool
  ETag :: string

definition ZeroObjectVersion :: ObjectVersion where
  "ZeroObjectVersion =
     \<lparr>VersionID = [], Operation = [], Timestamp = 0, IsLatest = False, ETag = []\<rparr>"

text \<open>
  \<^verbatim>\<open>type ObjectVersionMap map[string][]ObjectVersion\<close>. The Go map is an association
  list read through \<^const>\<open>map_of\<close>: a key is bound at most once as far as lookups,
  updates and deletions can tell, and \<^verbatim>\<open>len\<close> counts the distinct keys.
\<close>

type_synonym ObjectVersionMap = "(string \<times> ObjectVersion list) list"

definition lenMap :: "(string \<times> 'v) list \<Rightarrow> nat" where
  "lenMap m = length (remdups (map fst m))"

text \<open>
  The comparison closure handed to \<^verbatim>\<open>slices.SortFunc\<close> in \<^verbatim>\<open>Add\<close>.
\<close>

definition cmpTimestamp :: "ObjectVersion \<Rightarrow> ObjectVersion \<Rightarrow> int" where
  "cmpTimestamp a b =
     (if Timestamp a < Timestamp b then - 1
      else if Timestamp a = Timestamp b then 0
      else 1)"

text \<open>
  \<^verbatim>\<open>slices.SortFunc\<close> belongs to the Go standard library, not to this repository. It
  is a parameter of the model. Its documentation promises an ascending order with
  respect to the comparison function and says that the sort is not guaranteed to
  be stable; \<open>sortFuncContract\<close> is that promise for the closure above.
\<close>

type_synonym SortFunc =
  "ObjectVersion list \<Rightarrow> (ObjectVersion \<Rightarrow> ObjectVersion \<Rightarrow> int) \<Rightarrow> ObjectVersion list"

definition ascendingBy :: "('a \<Rightarrow> 'a \<Rightarrow> int) \<Rightarrow> 'a list \<Rightarrow> bool" where
  "ascendingBy cmp xs = sorted_wrt (\<lambda>a b. \<not> cmp b a < 0) xs"

definition sortFuncContract :: "SortFunc \<Rightarrow> bool" where
  "sortFuncContract sortFunc \<longleftrightarrow>
     (\<forall>xs. mset (sortFunc xs cmpTimestamp) = mset xs
         \<and> ascendingBy cmpTimestamp (sortFunc xs cmpTimestamp))"

text \<open>
  A sort that meets the contract. \<open>insertionSort\<close> moves each element left while
  it compares less than its left neighbour, so equal elements keep their order of
  arrival. The library sort, modelled further below, does this on a slice of at
  most 12 elements.
\<close>

fun insertLess :: "('a \<Rightarrow> 'a \<Rightarrow> int) \<Rightarrow> 'a \<Rightarrow> 'a list \<Rightarrow> 'a list" where
  "insertLess cmp x [] = [x]"
| "insertLess cmp x (y # ys) =
     (if cmp x y < 0 then x # y # ys else y # insertLess cmp x ys)"

definition insertionSort :: "'a list \<Rightarrow> ('a \<Rightarrow> 'a \<Rightarrow> int) \<Rightarrow> 'a list" where
  "insertionSort xs cmp = foldl (\<lambda>acc x. insertLess cmp x acc) [] xs"

text \<open>
  \<^verbatim>\<open>func (ovm *ObjectVersionMap) Add(key, versionID, operation, timestamp, isLatest, etag)\<close>:
  look the key up (an empty slice when it is new), append the record, sort the
  slice, store it. The debug log line has no effect on the map.
\<close>

definition Add ::
  "SortFunc \<Rightarrow> ObjectVersionMap \<Rightarrow> string \<Rightarrow> string \<Rightarrow> OperationType \<Rightarrow> int \<Rightarrow> bool \<Rightarrow> string
     \<Rightarrow> ObjectVersionMap" where
  "Add sortFunc ovm key versionID operation timestamp isLatest etag =
     (let found = (case map_of ovm key of Some foundSlice \<Rightarrow> foundSlice | None \<Rightarrow> []);
          appended = found @ [\<lparr>VersionID = versionID, Operation = operation,
                               Timestamp = timestamp, IsLatest = isLatest, ETag = etag\<rparr>];
          sl = sortFunc appended cmpTimestamp
      in AList.update key sl ovm)"

text \<open>
  A sequence of \<^verbatim>\<open>Add\<close> calls, each given by its six arguments.
\<close>

type_synonym AddCall = "string \<times> string \<times> OperationType \<times> int \<times> bool \<times> string"

fun addCall :: "SortFunc \<Rightarrow> ObjectVersionMap \<Rightarrow> AddCall \<Rightarrow> ObjectVersionMap" where
  "addCall sortFunc ovm (key, versionID, operation, timestamp, isLatest, etag) =
     Add sortFunc ovm key versionID operation timestamp isLatest etag"

definition addCalls :: "SortFunc \<Rightarrow> ObjectVersionMap \<Rightarrow> AddCall list \<Rightarrow> ObjectVersionMap" where
  "addCalls sortFunc ovm calls = foldl (addCall sortFunc) ovm calls"

definition recordOf :: "AddCall \<Rightarrow> ObjectVersion" where
  "recordOf c = (case c of (key, versionID, operation, timestamp, isLatest, etag) \<Rightarrow>
     \<lparr>VersionID = versionID, Operation = operation, Timestamp = timestamp,
      IsLatest = isLatest, ETag = etag\<rparr>)"

definition slicesSorted :: "ObjectVersionMap \<Rightarrow> bool" where
  "slicesSorted ovm \<longleftrightarrow>
     (\<forall>key \<in> set (map fst ovm).
        case map_of ovm key of None \<Rightarrow> True
        | Some sl \<Rightarrow> sorted (map Timestamp sl))"

text \<open>
  The slice stored under a key (\<^verbatim>\<open>(*ovm)[key]\<close>, the empty slice when the key
  is absent), and the records a sequence of \<^verbatim>\<open>Add\<close> calls hands in for one key, in
  the order of the calls.
\<close>

definition sliceOf :: "ObjectVersionMap \<Rightarrow> string \<Rightarrow> ObjectVersion list" where
  "sliceOf ovm key = (case map_of ovm key of Some sl \<Rightarrow> sl | None \<Rightarrow> [])"

definition recordsFor :: "string \<Rightarrow> AddCall list \<Rightarrow> ObjectVersion list" where
  "recordsFor key calls = map recordOf (filter (\<lambda>call. fst call = key) calls)"

section \<open>The restore decision (the loop body of main)\<close>

text \<open>
  The two calls that main makes on the storage client:
  \<^verbatim>\<open>s3Client.Delete(ctx, bucket, key)\<close> and
  \<^verbatim>\<open>s3Client.Copy(ctx, bucket, bucket, key, versionAtTimestamp.VersionID)\<close>;
  \<open>Skip\<close> is the \<^verbatim>\<open>continue\<close> that makes none.
\<close>

datatype Action =
    Skip
  | Delete string string
  | Copy string string string string

text \<open>
  \<^verbatim>\<open>for _, v := range versions\<close>: the pair of variables
  \<^verbatim>\<open>(versionAtTimestamp, latestVersion)\<close> is threaded through the loop.
\<close>

fun versionLoop ::
  "int \<Rightarrow> ObjectVersion list \<Rightarrow> ObjectVersion \<times> ObjectVersion \<Rightarrow> ObjectVersion \<times> ObjectVersion" where
  "versionLoop referenceTimestamp [] acc = acc"
| "versionLoop referenceTimestamp (v # versions) (versionAtTimestamp, latestVersion) =
     versionLoop referenceTimestamp versions
       (if Timestamp v < referenceTimestamp then v else versionAtTimestamp,
        if IsLatest v then v else latestVersion)"

definition versionAtTimestamp :: "int \<Rightarrow> ObjectVersion list \<Rightarrow> ObjectVersion" where
  "versionAtTimestamp referenceTimestamp versions =
     fst (versionLoop referenceTimestamp versions (ZeroObjectVersion, ZeroObjectVersion))"

definition latestVersion :: "int \<Rightarrow> ObjectVersion list \<Rightarrow> ObjectVersion" where
  "latestVersion referenceTimestamp versions =
     snd (versionLoop referenceTimestamp versions (ZeroObjectVersion, ZeroObjectVersion))"

definition restoreKey :: "string \<Rightarrow> int \<Rightarrow> string \<Rightarrow> ObjectVersion list \<Rightarrow> Action" where
  "restoreKey bucket referenceTimestamp key versions =
     (let atTimestamp = versionAtTimestamp referenceTimestamp versions;
          latest = latestVersion referenceTimestamp versions
      in if ETag latest = ETag atTimestamp then Skip
         else if atTimestamp = ZeroObjectVersion \<or> Operation atTimestamp = OperationTypeDelete
           then Delete bucket key
         else Copy bucket bucket key (VersionID atTimestamp))"

section \<open>The version-listing iterator (s3/client.go)\<close>

text \<open>
  The entries of a \<^verbatim>\<open>ListObjectVersions\<close> response, as the AWS SDK types them: an
  object version has a key, a version id, a modification time, the latest flag and
  an etag; a delete marker has no etag. A response carries both lists and the
  \<^verbatim>\<open>IsTruncated\<close> flag.
\<close>

record S3ObjectVersion =
  vKey :: string
  vVersionId :: string
  vLastModified :: int
  vIsLatest :: bool
  vETag :: string

record S3DeleteMarker =
  mKey :: string
  mVersionId :: string
  mLastModified :: int
  mIsLatest :: bool

record ListObjectVersionsOutput =
  Versions :: "S3ObjectVersion list"
  DeleteMarkers :: "S3DeleteMarker list"
  IsTruncated :: bool

text \<open>
  The storage client. \<open>listObjectVersions c bucket prefix\<close> is the sequence of
  answers the service gives to the successive \<^verbatim>\<open>ListObjectVersions\<close> calls of one
  scan of \<open>bucket\<close> under \<open>prefix\<close> (\<open>None\<close> is a failed call); \<open>mutationFails\<close>
  tells whether a \<^verbatim>\<open>CopyObject\<close> or \<^verbatim>\<open>DeleteObject\<close> call returns an error.
\<close>

record Client =
  listObjectVersions :: "string \<Rightarrow> string option \<Rightarrow> ListObjectVersionsOutput option list"
  mutationFails :: "Action \<Rightarrow> bool"

datatype error = EOF | ListingError | MapIsEmpty

text \<open>
  \<^verbatim>\<open>type ListIterator struct\<close>. The pair \<^verbatim>\<open>keyMarker\<close>, \<^verbatim>\<open>versionIdMarker\<close> is the
  continuation cursor; the model keeps it as the number of pages already read
  (\<open>0\<close> for the two \<^verbatim>\<open>nil\<close> markers).
\<close>

record ListIterator =
  c :: Client
  bucket :: string
  prefix :: "string option"
  loadMore :: bool
  marker :: nat
  pageObjectsWithVersions :: ObjectVersionMap

definition List :: "Client \<Rightarrow> string \<Rightarrow> string option \<Rightarrow> ListIterator" where
  "List cl bucketName pfx =
     \<lparr>c = cl, bucket = bucketName, prefix = pfx, loadMore = True, marker = 0,
      pageObjectsWithVersions = []\<rparr>"

text \<open>
  One \<^verbatim>\<open>ListObjectVersions\<close> call at a cursor: the answer and the next cursor. A
  call behind the last recorded answer gets the empty, untruncated listing.
\<close>

definition ListObjectVersions ::
  "Client \<Rightarrow> string \<Rightarrow> string option \<Rightarrow> nat \<Rightarrow> (ListObjectVersionsOutput \<times> nat) option" where
  "ListObjectVersions cl bucketName pfx cursor =
     (let responses = listObjectVersions cl bucketName pfx
      in if cursor < length responses
         then (case responses ! cursor of
                 None \<Rightarrow> None
               | Some out \<Rightarrow> Some (out, Suc cursor))
         else Some (\<lparr>Versions = [], DeleteMarkers = [], IsTruncated = False\<rparr>, cursor))"

text \<open>
  \<^verbatim>\<open>for _, v := range versions.Versions\<close> and
  \<^verbatim>\<open>for _, v := range versions.DeleteMarkers\<close>: a delete marker is stored with the
  empty etag.
\<close>

definition storeVersions :: "SortFunc \<Rightarrow> ObjectVersionMap \<Rightarrow> S3ObjectVersion list \<Rightarrow> ObjectVersionMap" where
  "storeVersions sortFunc ovm vs =
     foldl (\<lambda>m v. Add sortFunc m (vKey v) (vVersionId v) OperationTypePut
                     (vLastModified v) (vIsLatest v) (vETag v)) ovm vs"

definition storeDeleteMarkers :: "SortFunc \<Rightarrow> ObjectVersionMap \<Rightarrow> S3DeleteMarker list \<Rightarrow> ObjectVersionMap" where
  "storeDeleteMarkers sortFunc ovm ms =
     foldl (\<lambda>m v. Add sortFunc m (mKey v) (mVersionId v) OperationTypeDelete
                     (mLastModified v) (mIsLatest v) []) ovm ms"

definition storePage :: "SortFunc \<Rightarrow> ObjectVersionMap \<Rightarrow> ListObjectVersionsOutput \<Rightarrow> ObjectVersionMap" where
  "storePage sortFunc ovm versions =
     storeDeleteMarkers sortFunc (storeVersions sortFunc ovm (Versions versions))
       (DeleteMarkers versions)"

text \<open>
  The loop at the head of \<^verbatim>\<open>Next\<close>:
  \<^verbatim>\<open>for it.loadMore && len(it.pageObjectsWithVersions) <= 1\<close>. It returns the
  error of a failed call, if any, and the iterator as the loop leaves it.
\<close>

function fetchLoop :: "SortFunc \<Rightarrow> ListIterator \<Rightarrow> error option \<times> ListIterator" where
  "fetchLoop sortFunc it =
     (if loadMore it \<and> lenMap (pageObjectsWithVersions it) \<le> 1
      then (case ListObjectVersions (c it) (bucket it) (prefix it) (marker it) of
              None \<Rightarrow> (Some ListingError, it)
            | Some (versions, next) \<Rightarrow>
                fetchLoop sortFunc
                  (it\<lparr>loadMore := IsTruncated versions, marker := next,
                      pageObjectsWithVersions :=
                        storePage sortFunc (pageObjectsWithVersions it) versions\<rparr>))
      else (None, it))"
  by pat_completeness auto
termination
  by (relation "measure (\<lambda>(sortFunc, it).
        (length (listObjectVersions (c it) (bucket it) (prefix it)) - marker it)
        + (if loadMore it then 1 else 0))")
     (auto simp: ListObjectVersions_def Let_def split: if_splits option.splits)

text \<open>
  \<^verbatim>\<open>firstMapKey\<close>: panic on the empty map, otherwise collect the keys, sort them,
  return the first.
\<close>

definition firstMapKey :: "(string \<times> 'v) list \<Rightarrow> error + string" where
  "firstMapKey m =
     (if lenMap m = 0 then Inl MapIsEmpty
      else (let keys = remdups (map fst m) in Inr (hd (sort keys))))"

definition Next ::
  "SortFunc \<Rightarrow> ListIterator \<Rightarrow> (error + string \<times> ObjectVersion list) \<times> ListIterator" where
  "Next sortFunc it =
     (case fetchLoop sortFunc it of
        (Some err, it1) \<Rightarrow> (Inl err, it1)
      | (None, it1) \<Rightarrow>
          if lenMap (pageObjectsWithVersions it1) = 0 then (Inl EOF, it1)
          else (case firstMapKey (pageObjectsWithVersions it1) of
                  Inl err \<Rightarrow> (Inl err, it1)
                | Inr key \<Rightarrow>
                    (Inr (key, case map_of (pageObjectsWithVersions it1) key of
                                 Some versions \<Rightarrow> versions | None \<Rightarrow> []),
                     it1\<lparr>pageObjectsWithVersions :=
                           AList.delete key (pageObjectsWithVersions it1)\<rparr>)))"

text \<open>
  Calling \<^verbatim>\<open>Next\<close> until it returns an error: the pairs emitted, and the error
  that ended the sequence (\<open>EOF\<close> at a regular end).
\<close>

function drain :: "SortFunc \<Rightarrow> ListIterator \<Rightarrow> (string \<times> ObjectVersion list) list \<times> error" where
  "drain sortFunc it =
     (case Next sortFunc it of
        (Inl err, it1) \<Rightarrow> ([], err)
      | (Inr emitted, it1) \<Rightarrow>
          (case drain sortFunc it1 of (rest, err) \<Rightarrow> (emitted # rest, err)))"
  by pat_completeness auto

text \<open>
  The iterator after \<open>n\<close> calls of \<^verbatim>\<open>Next\<close>.
\<close>

definition afterCalls :: "SortFunc \<Rightarrow> nat \<Rightarrow> ListIterator \<Rightarrow> ListIterator" where
  "afterCalls sortFunc n it = ((\<lambda>i. snd (Next sortFunc i)) ^^ n) it"

text \<open>
  Notions the statements about page streams use: the keys of a page, the keys of
  the pages not yet read, pages in non-decreasing key order, and truncation flags
  that are set on every page but the last.
\<close>

definition pageKeys :: "ListObjectVersionsOutput \<Rightarrow> string list" where
  "pageKeys p = map vKey (Versions p) @ map mKey (DeleteMarkers p)"

definition keysAscending :: "ListObjectVersionsOutput list \<Rightarrow> bool" where
  "keysAscending pages =
     sorted_wrt (\<lambda>p q. \<forall>a \<in> set (pageKeys p). \<forall>b \<in> set (pageKeys q). a \<le> b) pages"

fun wellTruncated :: "ListObjectVersionsOutput list \<Rightarrow> bool" where
  "wellTruncated [] = True"
| "wellTruncated [p] = (\<not> IsTruncated p)"
| "wellTruncated (p # q # pages) = (IsTruncated p \<and> wellTruncated (q # pages))"

definition pagesClient :: "ListObjectVersionsOutput list \<Rightarrow> Client" where
  "pagesClient pages =
     \<lparr>listObjectVersions = (\<lambda>bucketName pfx. map Some pages), mutationFails = (\<lambda>a. False)\<rparr>"

definition unreadKeys :: "ListIterator \<Rightarrow> string set" where
  "unreadKeys it =
     (\<Union>r \<in> set (drop (marker it) (listObjectVersions (c it) (bucket it) (prefix it))).
        case r of None \<Rightarrow> {} | Some p \<Rightarrow> set (pageKeys p))"

text \<open>
  The \<^verbatim>\<open>Add\<close> calls that storing a page makes, the answers of the service an
  iterator reads from, the keys it holds, and the invariant of an iterator that
  reads the page stream \<open>pages\<close>: once \<^verbatim>\<open>loadMore\<close> is false no page is unread,
  and no held key is greater than a key of an unread page.
\<close>

definition versionCall :: "S3ObjectVersion \<Rightarrow> AddCall" where
  "versionCall v =
     (vKey v, vVersionId v, OperationTypePut, vLastModified v, vIsLatest v, vETag v)"

definition markerCall :: "S3DeleteMarker \<Rightarrow> AddCall" where
  "markerCall v = (mKey v, mVersionId v, OperationTypeDelete, mLastModified v, mIsLatest v, [])"

definition pageCalls :: "ListObjectVersionsOutput \<Rightarrow> AddCall list" where
  "pageCalls p = map versionCall (Versions p) @ map markerCall (DeleteMarkers p)"

definition stream :: "ListIterator \<Rightarrow> ListObjectVersionsOutput option list" where
  "stream it = listObjectVersions (c it) (bucket it) (prefix it)"

definition pendingKeys :: "ListIterator \<Rightarrow> string set" where
  "pendingKeys it = fst ` set (pageObjectsWithVersions it)"

definition iterInv :: "ListObjectVersionsOutput list \<Rightarrow> ListIterator \<Rightarrow> bool" where
  "iterInv pages it \<longleftrightarrow>
     stream it = map Some pages
   \<and> (\<not> loadMore it \<longrightarrow> length pages \<le> marker it)
   \<and> (\<forall>k \<in> pendingKeys it. \<forall>k' \<in> unreadKeys it. k \<le> k')"

text \<open>
  All \<^verbatim>\<open>Add\<close> calls that reading a page stream to its end makes, in the order the
  iterator makes them. A slice is good when it is non-decreasing by timestamp and
  its delete markers have the empty etag; a map is good when its slices are.
\<close>

definition streamCalls :: "ListObjectVersionsOutput list \<Rightarrow> AddCall list" where
  "streamCalls pages = concat (map pageCalls pages)"

definition goodSlice :: "ObjectVersion list \<Rightarrow> bool" where
  "goodSlice sl \<longleftrightarrow>
     sorted (map Timestamp sl)
   \<and> (\<forall>v \<in> set sl. Operation v = OperationTypeDelete \<longrightarrow> ETag v = [])"

definition goodMap :: "ObjectVersionMap \<Rightarrow> bool" where
  "goodMap ovm \<longleftrightarrow> (\<forall>key sl. map_of ovm key = Some sl \<longrightarrow> goodSlice sl)"

text \<open>
  Two page streams hold the same records when they hold the same versions and the
  same delete markers, however these are cut into pages. Within a page the two lists
  may each be required to be in ascending key order.
\<close>

definition sameRecords :: "ListObjectVersionsOutput list \<Rightarrow> ListObjectVersionsOutput list \<Rightarrow> bool" where
  "sameRecords pagesA pagesB \<longleftrightarrow>
     mset (concat (map Versions pagesA)) = mset (concat (map Versions pagesB))
   \<and> mset (concat (map DeleteMarkers pagesA)) = mset (concat (map DeleteMarkers pagesB))"

definition sortedWithin :: "ListObjectVersionsOutput list \<Rightarrow> bool" where
  "sortedWithin pages =
     list_all (\<lambda>p. sorted (map vKey (Versions p)) \<and> sorted (map mKey (DeleteMarkers p))) pages"

section \<open>The main loop (main.go)\<close>

text \<open>
  \<^verbatim>\<open>for { key, versions, err := versionIt.Next(ctx) ... }\<close>. The result is the
  decision taken for each key, in order, and the exit code: \<open>0\<close> after
  \<^verbatim>\<open>io.EOF\<close>, \<open>1\<close> after a listing error or a failed \<^verbatim>\<open>Delete\<close> or \<^verbatim>\<open>Copy\<close>,
  \<open>2\<close> after the panic of \<^verbatim>\<open>firstMapKey\<close>.
\<close>

function mainLoop ::
  "Client \<Rightarrow> SortFunc \<Rightarrow> string \<Rightarrow> int \<Rightarrow> ListIterator \<Rightarrow> (string \<times> Action) list \<times> nat" where
  "mainLoop s3Client sortFunc bucketName referenceTimestamp versionIt =
     (case Next sortFunc versionIt of
        (Inl EOF, it1) \<Rightarrow> ([], 0)
      | (Inl ListingError, it1) \<Rightarrow> ([], 1)
      | (Inl MapIsEmpty, it1) \<Rightarrow> ([], 2)
      | (Inr (key, versions), it1) \<Rightarrow>
          (let action = restoreKey bucketName referenceTimestamp key versions
           in if action \<noteq> Skip \<and> mutationFails s3Client action then ([(key, action)], 1)
              else (case mainLoop s3Client sortFunc bucketName referenceTimestamp it1 of
                      (log, code) \<Rightarrow> ((key, action) # log, code))))"
  by pat_completeness auto

text \<open>
  \<^verbatim>\<open>func main()\<close>. \<open>parseTime\<close> stands for \<^verbatim>\<open>time.Parse(time.RFC3339, _)\<close> and
  \<open>newClient\<close> for the result of \<^verbatim>\<open>s3.New(ctx)\<close>; \<open>verbose\<close> and \<open>prefixFlag\<close> are
  the two flags, \<open>args\<close> the positional arguments. The iterator is created by
  \<^verbatim>\<open>s3Client.List(ctx, bucket, nil)\<close>.
\<close>

definition main ::
  "(string \<Rightarrow> int option) \<Rightarrow> Client option \<Rightarrow> SortFunc \<Rightarrow> bool \<Rightarrow> string \<Rightarrow> string list
     \<Rightarrow> (string \<times> Action) list \<times> nat" where
  "main parseTime newClient sortFunc verbose prefixFlag args =
     (if length args \<noteq> 2 then ([], 2)
      else (case parseTime (args ! 1) of
              None \<Rightarrow> ([], 1)
            | Some referenceTimestamp \<Rightarrow>
                (case newClient of
                   None \<Rightarrow> ([], 1)
                 | Some s3Client \<Rightarrow>
                     mainLoop s3Client sortFunc (args ! 0) referenceTimestamp
                       (List s3Client (args ! 0) None))))"

section \<open>The storage service, as the specification describes it\<close>

text \<open>
  Modelled from the spec: the records the storage service holds for a key after one
  of the two mutations, as a multiset. The service is not part of this repository.
  Deleting the current version of a key in a versioned bucket adds a delete marker
  as the new current version; copying a version onto its own key adds a new current
  version with the content, hence the etag, of the source. No record is removed; the
  records that were there lose the latest flag. In which order a later listing
  hands these records to the iterator, and what history \<^verbatim>\<open>Next\<close> and \<^verbatim>\<open>Add\<close> build
  from them, is not said here.
\<close>

definition clearLatest :: "ObjectVersion \<Rightarrow> ObjectVersion" where
  "clearLatest v = v\<lparr>IsLatest := False\<rparr>"

definition recordsAfterDelete :: "ObjectVersion list \<Rightarrow> string \<Rightarrow> int \<Rightarrow> ObjectVersion multiset" where
  "recordsAfterDelete versions newVersionID now =
     add_mset \<lparr>VersionID = newVersionID, Operation = OperationTypeDelete,
               Timestamp = now, IsLatest = True, ETag = []\<rparr>
       (mset (map clearLatest versions))"

definition recordsAfterCopy ::
  "ObjectVersion list \<Rightarrow> string \<Rightarrow> string \<Rightarrow> int \<Rightarrow> ObjectVersion multiset option" where
  "recordsAfterCopy versions version newVersionID now =
     (case find (\<lambda>v. VersionID v = version) versions of
        None \<Rightarrow> None
      | Some source \<Rightarrow>
          Some (add_mset \<lparr>VersionID = newVersionID, Operation = OperationTypePut,
                          Timestamp = now, IsLatest = True, ETag = ETag source\<rparr>
                  (mset (map clearLatest versions))))"

fun recordsAfterAction ::
  "Action \<Rightarrow> ObjectVersion list \<Rightarrow> string \<Rightarrow> int \<Rightarrow> ObjectVersion multiset option" where
  "recordsAfterAction Skip versions newVersionID now = Some (mset versions)"
| "recordsAfterAction (Delete bucketName key) versions newVersionID now =
     Some (recordsAfterDelete versions newVersionID now)"
| "recordsAfterAction (Copy srcBucket destBucket key version) versions newVersionID now =
     recordsAfterCopy versions version newVersionID now"

text \<open>
  Modelled from the spec: a service that honours the prefix of a listing request.
  The bucket holds the given versions and delete markers and answers a listing in
  one page with those whose key begins with the prefix.
\<close>

definition hasPrefix :: "string option \<Rightarrow> string \<Rightarrow> bool" where
  "hasPrefix pfx key = (case pfx of None \<Rightarrow> True | Some p \<Rightarrow> take (length p) key = p)"

definition bucketClient :: "S3ObjectVersion list \<Rightarrow> S3DeleteMarker list \<Rightarrow> Client" where
  "bucketClient vs ms =
     \<lparr>listObjectVersions = (\<lambda>bucketName pfx.
        [Some \<lparr>Versions = filter (\<lambda>v. hasPrefix pfx (vKey v)) vs,
               DeleteMarkers = filter (\<lambda>v. hasPrefix pfx (mKey v)) ms,
               IsTruncated = False\<rparr>]),
      mutationFails = (\<lambda>a. False)\<rparr>"

section \<open>The library sort, as the Go standard library implements it\<close>

text \<open>
  Modelled from the Go standard library: \<^verbatim>\<open>slices.SortFunc\<close> (package
  \<^verbatim>\<open>slices\<close>, pattern-defeating quicksort), which is not part of this repository.
  The functions below follow the library's \<^verbatim>\<open>insertionSortCmpFunc\<close>,
  \<^verbatim>\<open>choosePivotCmpFunc\<close> with \<^verbatim>\<open>medianCmpFunc\<close> and \<^verbatim>\<open>order2CmpFunc\<close>,
  \<^verbatim>\<open>reverseRangeCmpFunc\<close>, \<^verbatim>\<open>partialInsertionSortCmpFunc\<close>,
  \<^verbatim>\<open>partitionCmpFunc\<close>, \<^verbatim>\<open>partitionEqualCmpFunc\<close> and \<^verbatim>\<open>pdqsortCmpFunc\<close>. The
  slice is a list and an index is an \<open>int\<close>, as in Go; the library keeps its
  indices within the slice. Four branches of the library are left out, and the model
  answers \<open>None\<close> where the library would enter one of them: the heap sort taken
  when \<^verbatim>\<open>limit\<close> is 0, \<^verbatim>\<open>breakPatternsCmpFunc\<close> taken after an unbalanced
  partition, the choice of the pivot for a range of 50 or more elements, and the
  shifting of \<^verbatim>\<open>partialInsertionSortCmpFunc\<close> for such a range. A slice of at most
  12 elements is sorted by \<^verbatim>\<open>insertionSortCmpFunc\<close> alone.
\<close>

definition swapAt :: "'a list \<Rightarrow> int \<Rightarrow> int \<Rightarrow> 'a list" where
  "swapAt data i j = data[nat i := data ! nat j, nat j := data ! nat i]"

text \<open>
  \<^verbatim>\<open>for j := i; j > a && cmp(data[j], data[j-1]) < 0; j--\<close> and the loop around it,
  \<^verbatim>\<open>for i := a + 1; i < b; i++\<close>.
\<close>

function insertionShift :: "('a \<Rightarrow> 'a \<Rightarrow> int) \<Rightarrow> 'a list \<Rightarrow> int \<Rightarrow> int \<Rightarrow> 'a list" where
  "insertionShift cmp data a j =
     (if j > a \<and> cmp (data ! nat j) (data ! nat (j - 1)) < 0
      then insertionShift cmp (swapAt data j (j - 1)) a (j - 1)
      else data)"
  by pat_completeness auto
termination
  by (relation "measure (\<lambda>(cmp, data, a, j). nat (j - a))") auto

declare insertionShift.simps [simp del]

function insertionLoop :: "('a \<Rightarrow> 'a \<Rightarrow> int) \<Rightarrow> 'a list \<Rightarrow> int \<Rightarrow> int \<Rightarrow> int \<Rightarrow> 'a list" where
  "insertionLoop cmp data a b i =
     (if i < b then insertionLoop cmp (insertionShift cmp data a i) a b (i + 1) else data)"
  by pat_completeness auto
termination
  by (relation "measure (\<lambda>(cmp, data, a, b, i). nat (b - i))") auto

declare insertionLoop.simps [simp del]

definition insertionSortCmpFunc :: "'a list \<Rightarrow> int \<Rightarrow> int \<Rightarrow> ('a \<Rightarrow> 'a \<Rightarrow> int) \<Rightarrow> 'a list" where
  "insertionSortCmpFunc data a b cmp = insertionLoop cmp data a b (a + 1)"

text \<open>
  The pivot: the median of the elements at one, two and three quarters of the
  range, and a hint drawn from the number of exchanges the median took (\<open>12\<close> is
  the library's \<^verbatim>\<open>maxSwaps\<close>).
\<close>

datatype sortedHint = unknownHint | increasingHint | decreasingHint

definition order2CmpFunc ::
  "'a list \<Rightarrow> int \<Rightarrow> int \<Rightarrow> nat \<Rightarrow> ('a \<Rightarrow> 'a \<Rightarrow> int) \<Rightarrow> int \<times> int \<times> nat" where
  "order2CmpFunc data a b swaps cmp =
     (if cmp (data ! nat b) (data ! nat a) < 0 then (b, a, swaps + 1) else (a, b, swaps))"

definition medianCmpFunc ::
  "'a list \<Rightarrow> int \<Rightarrow> int \<Rightarrow> int \<Rightarrow> nat \<Rightarrow> ('a \<Rightarrow> 'a \<Rightarrow> int) \<Rightarrow> int \<times> nat" where
  "medianCmpFunc data a b c3 swaps cmp =
     (case order2CmpFunc data a b swaps cmp of (a1, b1, swaps1) \<Rightarrow>
      case order2CmpFunc data b1 c3 swaps1 cmp of (b2, c2, swaps2) \<Rightarrow>
      case order2CmpFunc data a1 b2 swaps2 cmp of (a3, b3, swaps3) \<Rightarrow>
        (b3, swaps3))"

definition choosePivotCmpFunc ::
  "'a list \<Rightarrow> int \<Rightarrow> int \<Rightarrow> ('a \<Rightarrow> 'a \<Rightarrow> int) \<Rightarrow> (int \<times> sortedHint) option" where
  "choosePivotCmpFunc data a b cmp =
     (let l = b - a;
          i = a + l div 4 * 1;
          j = a + l div 4 * 2;
          k = a + l div 4 * 3
      in if l \<ge> 8
         then (if l \<ge> 50 then None
               else (case medianCmpFunc data i j k 0 cmp of (j1, swaps) \<Rightarrow>
                       Some (j1, if swaps = 0 then increasingHint
                                 else if swaps = 12 then decreasingHint
                                 else unknownHint)))
         else Some (j, increasingHint))"

definition reverseRangeCmpFunc :: "'a list \<Rightarrow> int \<Rightarrow> int \<Rightarrow> 'a list" where
  "reverseRangeCmpFunc data a b =
     take (nat a) data @ rev (take (nat (b - a)) (drop (nat a) data)) @ drop (nat b) data"

text \<open>
  \<^verbatim>\<open>partialInsertionSortCmpFunc\<close>: advance to the first element that compares less
  than its left neighbour; the range is sorted when there is none; a range of fewer
  than 50 elements is given up unchanged.
\<close>

function firstDescent :: "('a \<Rightarrow> 'a \<Rightarrow> int) \<Rightarrow> 'a list \<Rightarrow> int \<Rightarrow> int \<Rightarrow> int" where
  "firstDescent cmp data b i =
     (if i < b \<and> \<not> cmp (data ! nat i) (data ! nat (i - 1)) < 0
      then firstDescent cmp data b (i + 1) else i)"
  by pat_completeness auto
termination
  by (relation "measure (\<lambda>(cmp, data, b, i). nat (b - i))") auto

declare firstDescent.simps [simp del]

definition partialInsertionSortCmpFunc ::
  "'a list \<Rightarrow> int \<Rightarrow> int \<Rightarrow> ('a \<Rightarrow> 'a \<Rightarrow> int) \<Rightarrow> bool option" where
  "partialInsertionSortCmpFunc data a b cmp =
     (let i = firstDescent cmp data b (a + 1)
      in if i = b then Some True
         else if b - a < 50 then Some False
         else None)"

text \<open>
  The two scans of a partition: \<^verbatim>\<open>for i <= j && P(data[i]) { i++ }\<close> and
  \<^verbatim>\<open>for i <= j && P(data[j]) { j-- }\<close>.
\<close>

function scanUp :: "('a \<Rightarrow> bool) \<Rightarrow> 'a list \<Rightarrow> int \<Rightarrow> int \<Rightarrow> int" where
  "scanUp P data i j = (if i \<le> j \<and> P (data ! nat i) then scanUp P data (i + 1) j else i)"
  by pat_completeness auto
termination
  by (relation "measure (\<lambda>(P, data, i, j). nat (j + 1 - i))") auto

declare scanUp.simps [simp del]

function scanDown :: "('a \<Rightarrow> bool) \<Rightarrow> 'a list \<Rightarrow> int \<Rightarrow> int \<Rightarrow> int" where
  "scanDown P data i j = (if i \<le> j \<and> P (data ! nat j) then scanDown P data i (j - 1) else j)"
  by pat_completeness auto
termination
  by (relation "measure (\<lambda>(P, data, i, j). nat (j + 1 - i))") auto

declare scanDown.simps [simp del]

text \<open>
  \<^verbatim>\<open>partitionCmpFunc\<close>: the pivot goes to the front, the first pair of scans
  decides whether the range is already partitioned, the loop exchanges the
  misplaced pairs, and the pivot goes to its place.
\<close>

function partitionLoop ::
  "('a \<Rightarrow> 'a \<Rightarrow> int) \<Rightarrow> 'a list \<Rightarrow> int \<Rightarrow> int \<Rightarrow> int \<Rightarrow> 'a list \<times> int" where
  "partitionLoop cmp data a i j =
     (let i1 = scanUp (\<lambda>x. cmp x (data ! nat a) < 0) data i j;
          j1 = scanDown (\<lambda>x. \<not> cmp x (data ! nat a) < 0) data i1 j
      in if i1 > j1 then (data, j1)
         else partitionLoop cmp (swapAt data i1 j1) a (i1 + 1) (j1 - 1))"
  by pat_completeness auto

definition partitionCmpFunc ::
  "'a list \<Rightarrow> int \<Rightarrow> int \<Rightarrow> int \<Rightarrow> ('a \<Rightarrow> 'a \<Rightarrow> int) \<Rightarrow> 'a list \<times> int \<times> bool" where
  "partitionCmpFunc data a b pivot cmp =
     (let data1 = swapAt data a pivot;
          i1 = scanUp (\<lambda>x. cmp x (data1 ! nat a) < 0) data1 (a + 1) (b - 1);
          j1 = scanDown (\<lambda>x. \<not> cmp x (data1 ! nat a) < 0) data1 i1 (b - 1)
      in if i1 > j1 then (swapAt data1 j1 a, j1, True)
         else (case partitionLoop cmp (swapAt data1 i1 j1) a (i1 + 1) (j1 - 1) of
                 (data2, j2) \<Rightarrow> (swapAt data2 j2 a, j2, False)))"

function partitionEqualLoop ::
  "('a \<Rightarrow> 'a \<Rightarrow> int) \<Rightarrow> 'a list \<Rightarrow> int \<Rightarrow> int \<Rightarrow> int \<Rightarrow> 'a list \<times> int" where
  "partitionEqualLoop cmp data a i j =
     (let i1 = scanUp (\<lambda>x. \<not> cmp (data ! nat a) x < 0) data i j;
          j1 = scanDown (\<lambda>x. cmp (data ! nat a) x < 0) data i1 j
      in if i1 > j1 then (data, i1)
         else partitionEqualLoop cmp (swapAt data i1 j1) a (i1 + 1) (j1 - 1))"
  by pat_completeness auto

definition partitionEqualCmpFunc ::
  "'a list \<Rightarrow> int \<Rightarrow> int \<Rightarrow> int \<Rightarrow> ('a \<Rightarrow> 'a \<Rightarrow> int) \<Rightarrow> 'a list \<times> int" where
  "partitionEqualCmpFunc data a b pivot cmp =
     partitionEqualLoop cmp (swapAt data a pivot) a (a + 1) (b - 1)"

text \<open>
  \<^verbatim>\<open>pdqsortCmpFunc\<close>. The loop variables \<^verbatim>\<open>wasBalanced\<close> and \<^verbatim>\<open>wasPartitioned\<close>
  are arguments; the library's recursive call starts with both true. Each turn of
  the loop and each recursive call uses one unit of the first argument, and the
  answer is \<open>None\<close> when it is used up.
\<close>

primrec pdqsortCmpFunc ::
  "nat \<Rightarrow> ('a \<Rightarrow> 'a \<Rightarrow> int) \<Rightarrow> 'a list \<Rightarrow> int \<Rightarrow> int \<Rightarrow> nat \<Rightarrow> bool \<Rightarrow> bool \<Rightarrow> 'a list option" where
  "pdqsortCmpFunc 0 cmp data a b limit wasBalanced wasPartitioned = None"
| "pdqsortCmpFunc (Suc fuel) cmp data a b limit wasBalanced wasPartitioned =
     (if b - a \<le> 12 then Some (insertionSortCmpFunc data a b cmp)
      else if limit = 0 then None
      else if \<not> wasBalanced then None
      else (case choosePivotCmpFunc data a b cmp of
              None \<Rightarrow> None
            | Some (pivot0, hint0) \<Rightarrow>
                (let data1 = (if hint0 = decreasingHint then reverseRangeCmpFunc data a b else data);
                     pivot = (if hint0 = decreasingHint then (b - 1) - (pivot0 - a) else pivot0);
                     hint = (if hint0 = decreasingHint then increasingHint else hint0)
                 in (case (if wasBalanced \<and> wasPartitioned \<and> hint = increasingHint
                           then partialInsertionSortCmpFunc data1 a b cmp else Some False) of
                       None \<Rightarrow> None
                     | Some True \<Rightarrow> Some data1
                     | Some False \<Rightarrow>
                         if a > 0 \<and> \<not> cmp (data1 ! nat (a - 1)) (data1 ! nat pivot) < 0
                         then (case partitionEqualCmpFunc data1 a b pivot cmp of
                                 (data2, mid) \<Rightarrow>
                                   pdqsortCmpFunc fuel cmp data2 mid b limit
                                     wasBalanced wasPartitioned)
                         else (case partitionCmpFunc data1 a b pivot cmp of
                                 (data2, mid, alreadyPartitioned) \<Rightarrow>
                                   (let leftLen = mid - a;
                                        rightLen = b - mid;
                                        balanceThreshold = (b - a) div 8
                                    in if leftLen < rightLen
                                       then (case pdqsortCmpFunc fuel cmp data2 a mid limit
                                                    True True of
                                               None \<Rightarrow> None
                                             | Some data3 \<Rightarrow>
                                                 pdqsortCmpFunc fuel cmp data3 (mid + 1) b limit
                                                   (leftLen \<ge> balanceThreshold) alreadyPartitioned)
                                       else (case pdqsortCmpFunc fuel cmp data2 (mid + 1) b limit
                                                    True True of
                                               None \<Rightarrow> None
                                             | Some data3 \<Rightarrow>
                                                 pdqsortCmpFunc fuel cmp data3 a mid limit
                                                   (rightLen \<ge> balanceThreshold)
                                                   alreadyPartitioned)))))))"

text \<open>
  \<^verbatim>\<open>bits.Len\<close>, and \<^verbatim>\<open>slices.SortFunc\<close> itself:
  \<^verbatim>\<open>pdqsortCmpFunc(x, 0, n, bits.Len(uint(n)), cmp)\<close>, started with one unit
  per element and one more. An answer \<open>Some\<close> is the slice the library's steps
  above leave; \<open>None\<close> says that the model does not follow the library on this
  slice.
\<close>

function bitsLen :: "nat \<Rightarrow> nat" where
  "bitsLen n = (if n = 0 then 0 else 1 + bitsLen (n div 2))"
  by pat_completeness auto
termination
  by (relation "measure id") auto

declare bitsLen.simps [simp del]

definition slicesSortFunc :: "'a list \<Rightarrow> ('a \<Rightarrow> 'a \<Rightarrow> int) \<Rightarrow> 'a list option" where
  "slicesSortFunc x cmp =
     pdqsortCmpFunc (length x + 1) cmp x 0 (int (length x)) (bitsLen (length x)) True True"

text \<open>
  The library sort as an argument for \<^verbatim>\<open>Add\<close>. Where the model above gives no
  answer the slice is handed back as it is, which is not what the library does;
  the statements below that use \<open>librarySort\<close> are about slices for which the
  model answers (every slice of at most 12 elements, and the slice of 13 elements
  of the example below).
\<close>

definition librarySort :: "'a list \<Rightarrow> ('a \<Rightarrow> 'a \<Rightarrow> int) \<Rightarrow> 'a list" where
  "librarySort x cmp = (case slicesSortFunc x cmp of Some ys \<Rightarrow> ys | None \<Rightarrow> x)"

section \<open>Example inputs\<close>

text \<open>
  The histories of the decision scenarios of the specification: a key written
  twice; a key written once; a key written and then deleted; a key written twice
  with the same content.
\<close>

definition scenario1 :: "ObjectVersion list" where
  "scenario1 =
     [\<lparr>VersionID = ''v0'', Operation = OperationTypePut, Timestamp = 10,
       IsLatest = False, ETag = ''etagA''\<rparr>,
      \<lparr>VersionID = ''v1'', Operation = OperationTypePut, Timestamp = 20,
       IsLatest = True, ETag = ''etagB''\<rparr>]"

definition scenario2 :: "ObjectVersion list" where
  "scenario2 =
     [\<lparr>VersionID = ''v0'', Operation = OperationTypePut, Timestamp = 10,
       IsLatest = True, ETag = ''etagA''\<rparr>]"


definition scenario4 :: "ObjectVersion list" where
  "scenario4 =
     [\<lparr>VersionID = ''v0'', Operation = OperationTypePut, Timestamp = 10,
       IsLatest = False, ETag = ''etagA''\<rparr>,
      \<lparr>VersionID = ''v1'', Operation = OperationTypePut, Timestamp = 20,
       IsLatest = True, ETag = ''etagA''\<rparr>]"

text \<open>
  Three \<^verbatim>\<open>Add\<close> calls that arrive newest first; and thirteen calls for one key,
  twelve records of one time followed by an older one.
\<close>

definition callsNewestFirst :: "AddCall list" where
  "callsNewestFirst =
     [(''k'', ''v3'', OperationTypePut, 30, True, ''c''),
      (''k'', ''v2'', OperationTypePut, 20, False, ''b''),
      (''k'', ''v1'', OperationTypePut, 10, False, ''a'')]"

definition callsThirteen :: "AddCall list" where
  "callsThirteen =
     [(''k'', ''r00'', OperationTypePut, 2, False, ''e00''),
      (''k'', ''r01'', OperationTypePut, 2, False, ''e01''),
      (''k'', ''r02'', OperationTypePut, 2, False, ''e02''),
      (''k'', ''r03'', OperationTypePut, 2, False, ''e03''),
      (''k'', ''r04'', OperationTypePut, 2, False, ''e04''),
      (''k'', ''r05'', OperationTypePut, 2, False, ''e05''),
      (''k'', ''r06'', OperationTypePut, 2, False, ''e06''),
      (''k'', ''r07'', OperationTypePut, 2, False, ''e07''),
      (''k'', ''r08'', OperationTypePut, 2, False, ''e08''),
      (''k'', ''r09'', OperationTypePut, 2, False, ''e09''),
      (''k'', ''r10'', OperationTypePut, 2, False, ''e10''),
      (''k'', ''r11'', OperationTypePut, 2, True, ''e11''),
      (''k'', ''r12'', OperationTypePut, 1, False, ''e12'')]"

text \<open>
  A listing of three keys, newest record first within a key, cut into pages of two
  records and as one page; the records of a key have pairwise distinct times.
\<close>

definition pagesOfTwo :: "ListObjectVersionsOutput list" where
  "pagesOfTwo =
     [\<lparr>Versions =
         [\<lparr>vKey = ''a'', vVersionId = ''a3'', vLastModified = 30, vIsLatest = True,
           vETag = ''ea3''\<rparr>],
       DeleteMarkers =
         [\<lparr>mKey = ''a'', mVersionId = ''a2'', mLastModified = 20, mIsLatest = False\<rparr>],
       IsTruncated = True\<rparr>,
      \<lparr>Versions =
         [\<lparr>vKey = ''a'', vVersionId = ''a1'', vLastModified = 10, vIsLatest = False,
           vETag = ''ea1''\<rparr>,
          \<lparr>vKey = ''b'', vVersionId = ''b1'', vLastModified = 15, vIsLatest = True,
           vETag = ''eb1''\<rparr>],
       DeleteMarkers = [],
       IsTruncated = True\<rparr>,
      \<lparr>Versions =
         [\<lparr>vKey = ''c'', vVersionId = ''c1'', vLastModified = 5, vIsLatest = False,
           vETag = ''ec1''\<rparr>],
       DeleteMarkers =
         [\<lparr>mKey = ''c'', mVersionId = ''c2'', mLastModified = 25, mIsLatest = True\<rparr>],
       IsTruncated = False\<rparr>]"

definition onePage :: "ListObjectVersionsOutput list" where
  "onePage =
     [\<lparr>Versions =
         [\<lparr>vKey = ''a'', vVersionId = ''a3'', vLastModified = 30, vIsLatest = True,
           vETag = ''ea3''\<rparr>,
          \<lparr>vKey = ''a'', vVersionId = ''a1'', vLastModified = 10, vIsLatest = False,
           vETag = ''ea1''\<rparr>,
          \<lparr>vKey = ''b'', vVersionId = ''b1'', vLastModified = 15, vIsLatest = True,
           vETag = ''eb1''\<rparr>,
          \<lparr>vKey = ''c'', vVersionId = ''c1'', vLastModified = 5, vIsLatest = False,
           vETag = ''ec1''\<rparr>],
       DeleteMarkers =
         [\<lparr>mKey = ''a'', mVersionId = ''a2'', mLastModified = 20, mIsLatest = False\<rparr>,
          \<lparr>mKey = ''c'', mVersionId = ''c2'', mLastModified = 25, mIsLatest = True\<rparr>],
       IsTruncated = False\<rparr>]"

text \<open>
  A key written and deleted at the same time: the listing (delete marker first) as
  one page, and cut after the delete marker.
\<close>

definition tiedOnePage :: "ListObjectVersionsOutput list" where
  "tiedOnePage =
     [\<lparr>Versions =
         [\<lparr>vKey = ''k'', vVersionId = ''v1'', vLastModified = 1, vIsLatest = False,
           vETag = ''e''\<rparr>],
       DeleteMarkers =
         [\<lparr>mKey = ''k'', mVersionId = ''d1'', mLastModified = 1, mIsLatest = True\<rparr>],
       IsTruncated = False\<rparr>]"

definition tiedTwoPages :: "ListObjectVersionsOutput list" where
  "tiedTwoPages =
     [\<lparr>Versions = [],
       DeleteMarkers =
         [\<lparr>mKey = ''k'', mVersionId = ''d1'', mLastModified = 1, mIsLatest = True\<rparr>],
       IsTruncated = True\<rparr>,
      \<lparr>Versions =
         [\<lparr>vKey = ''k'', vVersionId = ''v1'', vLastModified = 1, vIsLatest = False,
           vETag = ''e''\<rparr>],
       DeleteMarkers = [],
       IsTruncated = False\<rparr>]"




definition tiedAfterCopy :: "ListObjectVersionsOutput list" where
  "tiedAfterCopy =
     [\<lparr>Versions =
         [\<lparr>vKey = ''k'', vVersionId = ''v2'', vLastModified = 40, vIsLatest = True,
           vETag = ''e''\<rparr>,
          \<lparr>vKey = ''k'', vVersionId = ''v1'', vLastModified = 1, vIsLatest = False,
           vETag = ''e''\<rparr>],
       DeleteMarkers =
         [\<lparr>mKey = ''k'', mVersionId = ''d1'', mLastModified = 1, mIsLatest = False\<rparr>],
       IsTruncated = False\<rparr>]"

text \<open>
  A bucket with one key under the prefix \<^verbatim>\<open>a/\<close> and one under \<^verbatim>\<open>b/\<close>.
\<close>

definition twoPrefixes :: "S3ObjectVersion list" where
  "twoPrefixes =
     [\<lparr>vKey = ''a/x'', vVersionId = ''v1'', vLastModified = 5, vIsLatest = True,
       vETag = ''e1''\<rparr>,
      \<lparr>vKey = ''b/y'', vVersionId = ''v2'', vLastModified = 5, vIsLatest = True,
       vETag = ''e2''\<rparr>]"

section \<open>Facts about the decision loop and the sorts\<close>

lemma OperationType_distinct [simp]:
  "OperationTypePut \<noteq> OperationTypeDelete" "OperationTypeDelete \<noteq> OperationTypePut"
  "OperationTypePut \<noteq> []" "OperationTypeDelete \<noteq> []"
  by (simp_all add: OperationTypePut_def OperationTypeDelete_def)

lemma versionLoop_filter:
  "versionLoop r vs (a, l) =
     (case filter (\<lambda>v. Timestamp v < r) vs of [] \<Rightarrow> a | x # xs \<Rightarrow> last (x # xs),
      case filter IsLatest vs of [] \<Rightarrow> l | x # xs \<Rightarrow> last (x # xs))"
  by (induction vs arbitrary: a l) (auto split: list.splits)

lemma versionAtTimestamp_filter:
  "versionAtTimestamp r vs =
     (if filter (\<lambda>v. Timestamp v < r) vs = [] then ZeroObjectVersion
      else last (filter (\<lambda>v. Timestamp v < r) vs))"
  by (simp add: versionAtTimestamp_def versionLoop_filter split: list.splits)

lemma latestVersion_filter:
  "latestVersion r vs =
     (if filter IsLatest vs = [] then ZeroObjectVersion
      else last (filter IsLatest vs))"
  by (simp add: latestVersion_def versionLoop_filter split: list.splits)

lemma latestVersion_unique:
  assumes "v \<in> set vs" "IsLatest v" "\<forall>u \<in> set vs. IsLatest u \<longrightarrow> u = v"
  shows "latestVersion r vs = v"
proof -
  have ne: "filter IsLatest vs \<noteq> []" using assms(1,2) by (auto simp: filter_empty_conv)
  then have "last (filter IsLatest vs) \<in> set (filter IsLatest vs)" by (rule last_in_set)
  then have "last (filter IsLatest vs) = v" using assms(3) by auto
  with ne show ?thesis by (simp add: latestVersion_filter)
qed

lemma insertLess_mset: "mset (insertLess cmp x xs) = add_mset x (mset xs)"
  by (induction xs) auto

lemma foldl_insertLess_mset:
  "mset (foldl (\<lambda>acc x. insertLess cmp x acc) acc xs) = mset acc + mset xs"
  by (induction xs arbitrary: acc) (auto simp: insertLess_mset)

lemma ascendingBy_cmpTimestamp: "ascendingBy cmpTimestamp xs = sorted (map Timestamp xs)"
  by (induction xs) (auto simp: ascendingBy_def cmpTimestamp_def)

lemma insertLess_set: "set (insertLess cmp x xs) = insert x (set xs)"
  by (induction xs) auto

lemma insertLess_sorted:
  "sorted (map Timestamp xs) \<Longrightarrow> sorted (map Timestamp (insertLess cmpTimestamp x xs))"
  by (induction xs) (auto simp: cmpTimestamp_def insertLess_set split: if_splits)

lemma foldl_insertLess_sorted:
  "sorted (map Timestamp acc) \<Longrightarrow>
   sorted (map Timestamp (foldl (\<lambda>acc x. insertLess cmpTimestamp x acc) acc xs))"
  by (induction xs arbitrary: acc) (auto simp: insertLess_sorted)

lemma insertionSort_contract: "sortFuncContract insertionSort"
  by (simp add: sortFuncContract_def insertionSort_def foldl_insertLess_mset
      ascendingBy_cmpTimestamp foldl_insertLess_sorted)

lemma versionAtTimestamp_in_set:
  "filter (\<lambda>v. Timestamp v < r) vs \<noteq> [] \<Longrightarrow>
   versionAtTimestamp r vs \<in> set vs \<and> Timestamp (versionAtTimestamp r vs) < r"
proof -
  assume ne: "filter (\<lambda>v. Timestamp v < r) vs \<noteq> []"
  then have "last (filter (\<lambda>v. Timestamp v < r) vs) \<in> set (filter (\<lambda>v. Timestamp v < r) vs)"
    by (rule last_in_set)
  with ne show ?thesis by (simp add: versionAtTimestamp_filter)
qed

lemma sorted_filter_last_max:
  "sorted (map f xs) \<Longrightarrow> u \<in> set xs \<Longrightarrow> P u \<Longrightarrow> f u \<le> f (last (filter P xs))"
proof (induction xs)
  case Nil then show ?case by simp
next
  case (Cons x xs)
  show ?case
  proof (cases "filter P xs = []")
    case True
    with Cons.prems show ?thesis by (auto simp: filter_empty_conv)
  next
    case False
    then have "last (filter P xs) \<in> set (filter P xs)" by (rule last_in_set)
    then have "last (filter P xs) \<in> set xs" by simp
    with Cons False show ?thesis by auto
  qed
qed


lemma filter_latest_clear: "filter IsLatest (map clearLatest xs) = []"
  by (induction xs) (auto simp: clearLatest_def)


lemma restoreKey_Skip_iff:
  "restoreKey b r k xs = Skip \<longleftrightarrow> ETag (latestVersion r xs) = ETag (versionAtTimestamp r xs)"
  by (simp add: restoreKey_def Let_def)

section \<open>Facts about the library sort\<close>

lemma scanUp_ge: "i \<le> scanUp P data i j"
  by (induction P data i j rule: scanUp.induct) (subst scanUp.simps, auto)

lemma scanDown_le: "scanDown P data i j \<le> j"
  by (induction P data i j rule: scanDown.induct) (subst scanDown.simps, auto)

termination partitionLoop
proof (relation "measure (\<lambda>(cmp, data, a, i, j). nat (j + 1 - i))", goal_cases)
  case 1
  then show ?case by simp
next
  case (2 cmp data a i j i1 j1)
  have "i \<le> i1" using 2(1) by (simp add: scanUp_ge)
  moreover have "j1 \<le> j" using 2(2) by (simp add: scanDown_le)
  ultimately show ?case using 2(3) by simp
qed

termination partitionEqualLoop
proof (relation "measure (\<lambda>(cmp, data, a, i, j). nat (j + 1 - i))", goal_cases)
  case 1
  then show ?case by simp
next
  case (2 cmp data a i j i1 j1)
  have "i \<le> i1" using 2(1) by (simp add: scanUp_ge)
  moreover have "j1 \<le> j" using 2(2) by (simp add: scanDown_le)
  ultimately show ?case using 2(3) by simp
qed

declare partitionLoop.simps [simp del] partitionEqualLoop.simps [simp del]

lemma slicesSortFunc_short:
  "length x \<le> 12 \<Longrightarrow>
   slicesSortFunc x cmp = Some (insertionSortCmpFunc x 0 (int (length x)) cmp)"
  by (simp add: slicesSortFunc_def)

text \<open>
  On a slice of at most 12 elements the library sort, with the comparison by
  timestamp, is the insertion sort above.
\<close>

lemma insertLess_length: "length (insertLess cmp x xs) = Suc (length xs)"
  by (induction xs) auto

lemma insertLess_snoc_less:
  "cmp x y < 0 \<Longrightarrow> insertLess cmp x (ys @ [y]) = insertLess cmp x ys @ [y]"
  by (induction ys) auto

lemma insertLess_last:
  "\<forall>z \<in> set zs. \<not> cmp x z < 0 \<Longrightarrow> insertLess cmp x zs = zs @ [x]"
  by (induction zs) auto

lemma swapAt_adjacent:
  "swapAt (ys @ y # x # rest) (int (length ys) + 1) (int (length ys)) = ys @ x # y # rest"
  by (simp add: swapAt_def nat_add_distrib nth_append list_update_append)

lemma insertionShift_insertLess:
  "sorted (map Timestamp xs) \<Longrightarrow>
   insertionShift cmpTimestamp (xs @ x # rest) 0 (int (length xs))
     = insertLess cmpTimestamp x xs @ rest"
proof (induction xs arbitrary: rest rule: rev_induct)
  case Nil
  show ?case by (subst insertionShift.simps) simp
next
  case (snoc y ys)
  from snoc.prems have sy: "sorted (map Timestamp ys)"
    and le: "\<forall>z \<in> set ys. Timestamp z \<le> Timestamp y"
    by (auto simp: sorted_append)
  define data where "data = ys @ y # x # rest"
  define j where "j = int (length ys) + 1"
  have d: "(ys @ [y]) @ x # rest = data" by (simp add: data_def)
  have l: "int (length (ys @ [y])) = j" by (simp add: j_def)
  have j0: "j > 0" by (simp add: j_def)
  have j1: "j - 1 = int (length ys)" by (simp add: j_def)
  have nx: "data ! nat j = x"
    by (simp add: data_def j_def nat_add_distrib nth_append)
  have ny: "data ! nat (j - 1) = y"
    by (simp add: data_def j1 nth_append)
  have sw: "swapAt data j (j - 1) = ys @ x # y # rest"
    unfolding j1 unfolding data_def j_def by (rule swapAt_adjacent)
  show ?case
  proof (cases "Timestamp x < Timestamp y")
    case True
    then have c: "cmpTimestamp x y < 0" by (simp add: cmpTimestamp_def)
    have "insertionShift cmpTimestamp data 0 j
        = insertionShift cmpTimestamp (swapAt data j (j - 1)) 0 (j - 1)"
      by (subst insertionShift.simps) (simp only: j0 nx ny c simp_thms if_True)
    also have "\<dots> = insertionShift cmpTimestamp (ys @ x # y # rest) 0 (int (length ys))"
      by (simp only: sw) (simp only: j1)
    also have "\<dots> = insertLess cmpTimestamp x ys @ y # rest"
      by (rule snoc.IH[OF sy])
    finally show ?thesis unfolding d l using c by (simp add: insertLess_snoc_less)
  next
    case False
    then have c: "\<not> cmpTimestamp x y < 0" by (simp add: cmpTimestamp_def)
    have "\<forall>z \<in> set (ys @ [y]). \<not> cmpTimestamp x z < 0"
      using False le by (auto simp: cmpTimestamp_def)
    then have "insertLess cmpTimestamp x (ys @ [y]) = (ys @ [y]) @ [x]"
      by (rule insertLess_last)
    moreover have "insertionShift cmpTimestamp data 0 j = data"
      by (subst insertionShift.simps) (simp only: j0 nx ny c simp_thms if_False)
    ultimately show ?thesis unfolding d l by (simp add: data_def)
  qed
qed

lemma insertionLoop_foldl:
  "sorted (map Timestamp acc) \<Longrightarrow>
   insertionLoop cmpTimestamp (acc @ rest) 0 (int (length acc + length rest)) (int (length acc))
     = foldl (\<lambda>acc x. insertLess cmpTimestamp x acc) acc rest"
proof (induction rest arbitrary: acc)
  case Nil
  show ?case by (subst insertionLoop.simps) simp
next
  case (Cons x r)
  let ?acc = "insertLess cmpTimestamp x acc"
  have s: "sorted (map Timestamp ?acc)" using Cons.prems by (rule insertLess_sorted)
  have "insertionLoop cmpTimestamp (acc @ x # r) 0 (int (length acc + length (x # r)))
          (int (length acc))
      = insertionLoop cmpTimestamp (?acc @ r) 0 (int (length ?acc + length r))
          (int (length ?acc))"
    by (subst insertionLoop.simps)
       (simp add: insertionShift_insertLess[OF Cons.prems] insertLess_length ac_simps)
  also have "\<dots> = foldl (\<lambda>acc x. insertLess cmpTimestamp x acc) ?acc r"
    by (rule Cons.IH[OF s])
  finally show ?case by simp
qed

lemma insertionSortCmpFunc_insertionSort:
  "insertionSortCmpFunc x 0 (int (length x)) cmpTimestamp = insertionSort x cmpTimestamp"
proof (cases x)
  case Nil
  then show ?thesis
    by (simp add: insertionSortCmpFunc_def insertionSort_def) (subst insertionLoop.simps, simp)
next
  case (Cons y ys)
  have "insertionLoop cmpTimestamp ([y] @ ys) 0 (int (length [y] + length ys)) (int (length [y]))
     = foldl (\<lambda>acc x. insertLess cmpTimestamp x acc) [y] ys"
    by (rule insertionLoop_foldl) simp
  with Cons show ?thesis by (simp add: insertionSortCmpFunc_def insertionSort_def)
qed

lemma slicesSortFunc_insertionSort:
  "length x \<le> 12 \<Longrightarrow>
   slicesSortFunc x cmpTimestamp = Some (insertionSort x cmpTimestamp)"
  by (simp add: slicesSortFunc_short insertionSortCmpFunc_insertionSort)

lemma librarySort_insertionSort:
  "length x \<le> 12 \<Longrightarrow> librarySort x cmpTimestamp = insertionSort x cmpTimestamp"
  by (simp add: librarySort_def slicesSortFunc_insertionSort)

section \<open>Facts about Add\<close>

lemma slicesSorted_iff:
  "slicesSorted ovm \<longleftrightarrow> (\<forall>key sl. map_of ovm key = Some sl \<longrightarrow> sorted (map Timestamp sl))"
proof
  assume a: "slicesSorted ovm"
  show "\<forall>key sl. map_of ovm key = Some sl \<longrightarrow> sorted (map Timestamp sl)"
  proof (intro allI impI)
    fix key sl assume m: "map_of ovm key = Some sl"
    then have "key \<in> set (map fst ovm)" by (metis map_of_SomeD image_eqI fst_conv set_map)
    with a m show "sorted (map Timestamp sl)" by (auto simp: slicesSorted_def)
  qed
next
  assume "\<forall>key sl. map_of ovm key = Some sl \<longrightarrow> sorted (map Timestamp sl)"
  then show "slicesSorted ovm" by (auto simp: slicesSorted_def split: option.splits)
qed

lemma map_of_Add:
  "map_of (Add S ovm key vid op ts il et) =
     (map_of ovm)(key \<mapsto> S (sliceOf ovm key @
        [\<lparr>VersionID = vid, Operation = op, Timestamp = ts, IsLatest = il, ETag = et\<rparr>])
        cmpTimestamp)"
  by (simp add: Add_def Let_def update_conv' sliceOf_def)

lemma keys_Add: "fst ` set (Add S ovm key vid op ts il et) = insert key (fst ` set ovm)"
  by (simp add: Add_def Let_def dom_update)

lemma contract_sorted: "sortFuncContract S \<Longrightarrow> sorted (map Timestamp (S xs cmpTimestamp))"
  by (simp add: sortFuncContract_def ascendingBy_cmpTimestamp)

lemma contract_mset: "sortFuncContract S \<Longrightarrow> mset (S xs cmpTimestamp) = mset xs"
  by (simp add: sortFuncContract_def)

lemma contract_set: "sortFuncContract S \<Longrightarrow> set (S xs cmpTimestamp) = set xs"
  by (metis contract_mset set_mset_mset)

lemma Add_slicesSorted:
  "sortFuncContract S \<Longrightarrow> slicesSorted ovm \<Longrightarrow> slicesSorted (Add S ovm key vid op ts il et)"
  by (simp add: slicesSorted_iff map_of_Add contract_sorted)

lemma addCalls_slicesSorted:
  "sortFuncContract S \<Longrightarrow> slicesSorted ovm \<Longrightarrow> slicesSorted (addCalls S ovm calls)"
  unfolding addCalls_def
  by (induction calls arbitrary: ovm) (auto simp: Add_slicesSorted)

lemma sliceOf_Add:
  "sliceOf (Add S ovm key vid op ts il et) k =
     (if k = key then S (sliceOf ovm key @
        [\<lparr>VersionID = vid, Operation = op, Timestamp = ts, IsLatest = il, ETag = et\<rparr>])
        cmpTimestamp
      else sliceOf ovm k)"
  by (simp add: sliceOf_def map_of_Add)

lemma addCalls_mset:
  "sortFuncContract S \<Longrightarrow>
   mset (sliceOf (addCalls S ovm calls) key) = mset (sliceOf ovm key) + mset (recordsFor key calls)"
  unfolding addCalls_def
proof (induction calls arbitrary: ovm)
  case Nil
  then show ?case by (simp add: recordsFor_def)
next
  case (Cons call calls)
  obtain k vid op ts il et where call: "call = (k, vid, op, ts, il, et)"
    by (cases call) auto
  show ?case
    using Cons.IH[OF Cons.prems, of "addCall S ovm call"] Cons.prems
    by (simp add: call sliceOf_Add contract_mset recordsFor_def recordOf_def)
qed

lemma addCalls_keys:
  "fst ` set (addCalls S ovm calls) = fst ` set ovm \<union> fst ` set calls"
  unfolding addCalls_def
proof (induction calls arbitrary: ovm)
  case Nil
  then show ?case by simp
next
  case (Cons call calls)
  obtain k vid op ts il et where call: "call = (k, vid, op, ts, il, et)"
    by (cases call) auto
  show ?case using Cons.IH[of "addCall S ovm call"] by (auto simp: call keys_Add)
qed

lemma sorted_distinct_unique:
  assumes "mset xs = mset ys" "sorted (map f xs)" "sorted (map f ys)" "distinct (map f ys)"
  shows "xs = ys"
proof -
  have inj: "inj_on f (set ys)" using assms(4) by (simp add: distinct_map)
  have s: "set xs = set ys" using assms(1) by (metis set_mset_mset)
  have dx: "distinct (map f xs)"
    using assms(1,4) by (metis distinct_map mset_eq_imp_distinct_iff inj s)
  show ?thesis
    using map_sorted_distinct_set_unique[of f xs ys] inj s assms dx by simp
qed

section \<open>Facts about the iterator; termination of the loops\<close>

declare fetchLoop.simps [simp del]

lemma storeVersions_addCalls: "storeVersions S ovm vs = addCalls S ovm (map versionCall vs)"
  unfolding storeVersions_def addCalls_def
  by (induction vs arbitrary: ovm) (simp_all add: versionCall_def)

lemma storeDeleteMarkers_addCalls:
  "storeDeleteMarkers S ovm ms = addCalls S ovm (map markerCall ms)"
  unfolding storeDeleteMarkers_def addCalls_def
  by (induction ms arbitrary: ovm) (simp_all add: markerCall_def)

lemma storePage_addCalls: "storePage S ovm p = addCalls S ovm (pageCalls p)"
  by (simp add: storePage_def storeVersions_addCalls storeDeleteMarkers_addCalls
      pageCalls_def addCalls_def)

lemma fst_pageCalls: "fst ` set (pageCalls p) = set (pageKeys p)"
  by (simp add: pageCalls_def pageKeys_def image_Un image_image versionCall_def markerCall_def)

lemma keys_storePage: "fst ` set (storePage S ovm p) = fst ` set ovm \<union> set (pageKeys p)"
  by (simp add: storePage_addCalls addCalls_keys fst_pageCalls)

lemma fetchLoop_stop:
  "\<not> (loadMore it \<and> lenMap (pageObjectsWithVersions it) \<le> 1) \<Longrightarrow> fetchLoop S it = (None, it)"
  by (subst fetchLoop.simps) auto

lemma fetchLoop_step:
  "loadMore it \<and> lenMap (pageObjectsWithVersions it) \<le> 1 \<Longrightarrow>
   ListObjectVersions (c it) (bucket it) (prefix it) (marker it) = Some (p, n) \<Longrightarrow>
   fetchLoop S it = fetchLoop S (it\<lparr>loadMore := IsTruncated p, marker := n,
       pageObjectsWithVersions := storePage S (pageObjectsWithVersions it) p\<rparr>)"
  by (subst fetchLoop.simps) simp

lemma fetchLoop_fail:
  "loadMore it \<and> lenMap (pageObjectsWithVersions it) \<le> 1 \<Longrightarrow>
   ListObjectVersions (c it) (bucket it) (prefix it) (marker it) = None \<Longrightarrow>
   fetchLoop S it = (Some ListingError, it)"
  by (subst fetchLoop.simps) simp

lemma wellTruncated_nth:
  "wellTruncated pages \<Longrightarrow> m < length pages \<Longrightarrow>
   IsTruncated (pages ! m) \<longleftrightarrow> Suc m < length pages"
proof (induction pages arbitrary: m rule: wellTruncated.induct)
  case 1 then show ?case by simp
next
  case (2 p) then show ?case by simp
next
  case (3 p q pages)
  then show ?case by (cases m) auto
qed

lemma ListObjectVersions_pages:
  "listObjectVersions cl b pf = map Some pages \<Longrightarrow>
   ListObjectVersions cl b pf m =
     Some (if m < length pages then (pages ! m, Suc m)
           else (\<lparr>Versions = [], DeleteMarkers = [], IsTruncated = False\<rparr>, m))"
  by (simp add: ListObjectVersions_def Let_def)

lemma storePage_empty:
  "storePage S ovm \<lparr>Versions = [], DeleteMarkers = [], IsTruncated = t\<rparr> = ovm"
  by (simp add: storePage_def storeVersions_def storeDeleteMarkers_def)

lemma unreadKeys_pages:
  "stream it = map Some pages \<Longrightarrow>
   unreadKeys it = (\<Union>p \<in> set (drop (marker it) pages). set (pageKeys p))"
  by (auto simp: unreadKeys_def stream_def drop_map split: option.splits)

lemma unreadKeys_step:
  assumes "stream it = map Some pages" "marker it < length pages"
    "stream it2 = map Some pages" "marker it2 = Suc (marker it)"
  shows "unreadKeys it = set (pageKeys (pages ! marker it)) \<union> unreadKeys it2"
proof -
  have "drop (marker it) pages = pages ! marker it # drop (Suc (marker it)) pages"
    using assms(2) by (simp add: Cons_nth_drop_Suc)
  then show ?thesis
    using assms by (simp add: unreadKeys_pages)
qed

lemma keysAscending_nth:
  assumes "keysAscending pages" "m < length pages" "a \<in> set (pageKeys (pages ! m))"
    "q \<in> set (drop (Suc m) pages)" "b \<in> set (pageKeys q)"
  shows "a \<le> b"
proof -
  from assms(4) obtain j where j: "j < length (drop (Suc m) pages)" "q = drop (Suc m) pages ! j"
    by (metis in_set_conv_nth)
  then have "q = pages ! (Suc m + j)" "Suc m + j < length pages" "m < Suc m + j" by auto
  with assms(1) have "\<forall>a \<in> set (pageKeys (pages ! m)). \<forall>b \<in> set (pageKeys q). a \<le> b"
    unfolding keysAscending_def using sorted_wrt_nth_less by blast
  with assms(3,5) show ?thesis by blast
qed

lemma fetch_inv:
  assumes wt: "wellTruncated pages" and asc: "keysAscending pages"
  shows "iterInv pages it \<Longrightarrow> fetchLoop S it = (e, it1) \<Longrightarrow>
         e = None \<and> iterInv pages it1
       \<and> pendingKeys it1 \<union> unreadKeys it1 = pendingKeys it \<union> unreadKeys it
       \<and> \<not> (loadMore it1 \<and> lenMap (pageObjectsWithVersions it1) \<le> 1)"
proof (induction S it arbitrary: e it1 rule: fetchLoop.induct)
  case (1 S it)
  note inv = \<open>iterInv pages it\<close>
  then have st: "stream it = map Some pages" by (simp add: iterInv_def)
  then have lo: "listObjectVersions (c it) (bucket it) (prefix it) = map Some pages"
    by (simp add: stream_def)
  show ?case
  proof (cases "loadMore it \<and> lenMap (pageObjectsWithVersions it) \<le> 1")
    case False
    then have "fetchLoop S it = (None, it)" by (rule fetchLoop_stop)
    with 1 False show ?thesis by auto
  next
    case True
    show ?thesis
    proof (cases "marker it < length pages")
      case less: True
      let ?p = "pages ! marker it"
      let ?it2 = "it\<lparr>loadMore := IsTruncated ?p, marker := Suc (marker it),
          pageObjectsWithVersions := storePage S (pageObjectsWithVersions it) ?p\<rparr>"
      have lov: "ListObjectVersions (c it) (bucket it) (prefix it) (marker it)
                   = Some (?p, Suc (marker it))"
        using less by (simp add: ListObjectVersions_pages[OF lo])
      have f: "fetchLoop S it = fetchLoop S ?it2" by (rule fetchLoop_step[OF True lov])
      have st2: "stream ?it2 = map Some pages" using st by (simp add: stream_def)
      have uk: "unreadKeys it = set (pageKeys ?p) \<union> unreadKeys ?it2"
        by (rule unreadKeys_step[OF st less st2]) simp
      have pk: "pendingKeys ?it2 = pendingKeys it \<union> set (pageKeys ?p)"
        by (simp add: pendingKeys_def keys_storePage)
      have ord: "\<forall>k \<in> pendingKeys ?it2. \<forall>k' \<in> unreadKeys ?it2. k \<le> k'"
      proof (intro ballI)
        fix k k' assume k: "k \<in> pendingKeys ?it2" and k': "k' \<in> unreadKeys ?it2"
        from k pk consider "k \<in> pendingKeys it" | "k \<in> set (pageKeys ?p)" by auto
        then show "k \<le> k'"
        proof cases
          case 1
          then show ?thesis using inv k' uk by (auto simp: iterInv_def)
        next
          case 2
          from k' obtain q where "q \<in> set (drop (Suc (marker it)) pages)" "k' \<in> set (pageKeys q)"
            by (auto simp: unreadKeys_pages[OF st2])
          then show ?thesis using keysAscending_nth[OF asc less 2] by blast
        qed
      qed
      have inv2: "iterInv pages ?it2"
        using st2 ord wellTruncated_nth[OF wt less] by (auto simp: iterInv_def)
      have "e = None \<and> iterInv pages it1
           \<and> pendingKeys it1 \<union> unreadKeys it1 = pendingKeys ?it2 \<union> unreadKeys ?it2
           \<and> \<not> (loadMore it1 \<and> lenMap (pageObjectsWithVersions it1) \<le> 1)"
        using "1.IH"[OF True lov refl inv2] "1.prems"(2) f by simp
      then show ?thesis using uk pk by auto
    next
      case False
      let ?it2 = "it\<lparr>loadMore := False, marker := marker it,
          pageObjectsWithVersions := pageObjectsWithVersions it\<rparr>"
      have lov: "ListObjectVersions (c it) (bucket it) (prefix it) (marker it)
                   = Some (\<lparr>Versions = [], DeleteMarkers = [], IsTruncated = False\<rparr>, marker it)"
        using False by (simp add: ListObjectVersions_pages[OF lo])
      have f: "fetchLoop S it = fetchLoop S ?it2"
        using fetchLoop_step[OF True lov, of S] by (simp add: storePage_empty)
      have st2: "stream ?it2 = map Some pages" using st by (simp add: stream_def)
      have uk: "unreadKeys ?it2 = unreadKeys it" by (simp add: unreadKeys_def)
      have pk: "pendingKeys ?it2 = pendingKeys it" by (simp add: pendingKeys_def)
      have inv2: "iterInv pages ?it2"
        using inv False st2 uk pk unfolding iterInv_def by simp
      have "e = None \<and> iterInv pages it1
           \<and> pendingKeys it1 \<union> unreadKeys it1 = pendingKeys ?it2 \<union> unreadKeys ?it2
           \<and> \<not> (loadMore it1 \<and> lenMap (pageObjectsWithVersions it1) \<le> 1)"
        using "1.IH"[OF True lov refl] inv2 "1.prems"(2) f by (simp add: storePage_empty)
      then show ?thesis using uk pk by auto
    qed
  qed
qed

lemma lenMap_card: "lenMap m = card (fst ` set m)"
  by (simp add: lenMap_def length_remdups_card_conv)

lemma lenMap_delete: "k \<in> fst ` set m \<Longrightarrow> lenMap (AList.delete k m) < lenMap m"
proof -
  assume k: "k \<in> fst ` set m"
  have "fst ` set (AList.delete k m) = fst ` set m - {k}"
    by (metis delete_keys set_map set_removeAll)
  moreover have "card (fst ` set m - {k}) < card (fst ` set m)"
    by (rule card_Diff1_less) (simp_all add: k)
  ultimately show ?thesis by (simp add: lenMap_card)
qed

lemma keys_delete: "fst ` set (AList.delete k m) = fst ` set m - {k}"
  by (metis delete_keys set_map set_removeAll)

lemma hd_sort_least:
  assumes "xs \<noteq> []"
  shows "hd (sort xs) \<in> set xs \<and> (\<forall>x \<in> set xs. hd (sort xs) \<le> x)"
proof -
  from assms have ne: "sort xs \<noteq> []" by (metis length_sort length_0_conv)
  then obtain y ys where s: "sort xs = y # ys" by (cases "sort xs") auto
  have "sorted (y # ys)" by (metis s sorted_sort)
  moreover have "set (y # ys) = set xs" by (metis s set_sort)
  ultimately show ?thesis using s by auto
qed

lemma firstMapKey_least:
  assumes "lenMap m \<noteq> 0"
  shows "\<exists>k. firstMapKey m = Inr k \<and> k \<in> fst ` set m \<and> (\<forall>k' \<in> fst ` set m. k \<le> k')"
proof -
  from assms have "remdups (map fst m) \<noteq> []" by (simp add: lenMap_def)
  from hd_sort_least[OF this] assms show ?thesis
    by (simp add: firstMapKey_def Let_def)
qed

lemma fetch_progress:
  "fetchLoop S it = (e, it1) \<Longrightarrow>
   stream it1 = stream it
   \<and> (length (stream it) - marker it1 < length (stream it) - marker it
      \<or> (marker it1 = marker it
         \<and> pageObjectsWithVersions it1 = pageObjectsWithVersions it))"
proof (induction S it arbitrary: e it1 rule: fetchLoop.induct)
  case (1 S it)
  show ?case
  proof (cases "loadMore it \<and> lenMap (pageObjectsWithVersions it) \<le> 1")
    case False
    then have "fetchLoop S it = (None, it)" by (rule fetchLoop_stop)
    with 1 show ?thesis by simp
  next
    case True
    show ?thesis
    proof (cases "ListObjectVersions (c it) (bucket it) (prefix it) (marker it)")
      case None
      then have "fetchLoop S it = (Some ListingError, it)" by (rule fetchLoop_fail[OF True])
      with 1 show ?thesis by simp
    next
      case (Some pn)
      obtain p n where pn: "pn = (p, n)" by (cases pn) auto
      let ?it2 = "it\<lparr>loadMore := IsTruncated p, marker := n,
          pageObjectsWithVersions := storePage S (pageObjectsWithVersions it) p\<rparr>"
      have lov: "ListObjectVersions (c it) (bucket it) (prefix it) (marker it) = Some (p, n)"
        using Some pn by simp
      have f: "fetchLoop S ?it2 = (e, it1)"
        using fetchLoop_step[OF True lov, of S] "1.prems" by simp
      have ih: "stream it1 = stream ?it2
         \<and> (length (stream ?it2) - marker it1 < length (stream ?it2) - marker ?it2
            \<or> (marker it1 = marker ?it2
               \<and> pageObjectsWithVersions it1 = pageObjectsWithVersions ?it2))"
        by (rule "1.IH"[OF True lov refl f])
      have st: "stream ?it2 = stream it" by (simp add: stream_def)
      have step: "(marker it < length (stream it) \<and> n = Suc (marker it))
          \<or> (n = marker it \<and> storePage S (pageObjectsWithVersions it) p
                = pageObjectsWithVersions it)"
        using lov
        by (auto simp: ListObjectVersions_def Let_def stream_def storePage_empty
            split: if_splits option.splits)
      from ih st step show ?thesis by auto
    qed
  qed
qed

lemma Next_emit:
  assumes "Next S it = (Inr (k, vs), it')"
  shows "\<exists>it1. fetchLoop S it = (None, it1)
       \<and> lenMap (pageObjectsWithVersions it1) \<noteq> 0
       \<and> firstMapKey (pageObjectsWithVersions it1) = Inr k
       \<and> vs = sliceOf (pageObjectsWithVersions it1) k
       \<and> it' = it1\<lparr>pageObjectsWithVersions := AList.delete k (pageObjectsWithVersions it1)\<rparr>"
  using assms
  by (auto simp: Next_def sliceOf_def split: prod.splits option.splits if_splits sum.splits)

lemma Next_progress:
  assumes "Next S it = (Inr (k, vs), it')"
  shows "stream it' = stream it
   \<and> (length (stream it) - marker it' < length (stream it) - marker it
      \<or> (length (stream it) - marker it' = length (stream it) - marker it
         \<and> lenMap (pageObjectsWithVersions it') < lenMap (pageObjectsWithVersions it)))"
proof -
  from Next_emit[OF assms] obtain it1 where
    f: "fetchLoop S it = (None, it1)"
    and ne: "lenMap (pageObjectsWithVersions it1) \<noteq> 0"
    and k: "firstMapKey (pageObjectsWithVersions it1) = Inr k"
    and it': "it' = it1\<lparr>pageObjectsWithVersions := AList.delete k (pageObjectsWithVersions it1)\<rparr>"
    by blast
  from firstMapKey_least[OF ne] k have kin: "k \<in> fst ` set (pageObjectsWithVersions it1)"
    by auto
  from fetch_progress[OF f] lenMap_delete[OF kin] it' show ?thesis
    by (auto simp: stream_def)
qed

termination drain
proof (relation "measures [\<lambda>(S, it). length (stream it) - marker it,
                            \<lambda>(S, it). lenMap (pageObjectsWithVersions it)]", goal_cases)
  case 1
  then show ?case by simp
next
  case (2 S it x1 it1 emitted)
  obtain k vs where "emitted = (k, vs)" by (cases emitted) auto
  with 2 have "Next S it = (Inr (k, vs), it1)" by simp
  from Next_progress[OF this] show ?case by auto
qed

termination mainLoop
proof (relation "measures [\<lambda>(cl, S, b, r, it). length (stream it) - marker it,
                            \<lambda>(cl, S, b, r, it). lenMap (pageObjectsWithVersions it)]", goal_cases)
  case 1
  then show ?case by simp
next
  case (2 cl S b r it x1 it1 emitted key versions action)
  then have "Next S it = (Inr (key, versions), it1)" by simp
  from Next_progress[OF this] show ?case by auto
qed

declare drain.simps [simp del] mainLoop.simps [simp del]

section \<open>Facts about Next and about draining the iterator\<close>

lemma card_ge2_other:
  assumes "2 \<le> card A"
  shows "\<exists>x \<in> A. x \<noteq> k"
proof (rule ccontr)
  assume "\<not> (\<exists>x \<in> A. x \<noteq> k)"
  then have "A \<subseteq> {k}" by auto
  then have "card A \<le> card {k}" by (rule card_mono[rotated]) simp
  with assms show False by simp
qed

lemma unreadKeys_exhausted:
  "stream it = map Some pages \<Longrightarrow> length pages \<le> marker it \<Longrightarrow> unreadKeys it = {}"
  by (simp add: unreadKeys_pages)

lemma Next_emit_inv:
  assumes wt: "wellTruncated pages" and asc: "keysAscending pages"
    and inv: "iterInv pages it" and nx: "Next S it = (Inr (k, vs), it')"
  shows "iterInv pages it'"
    and "k \<notin> unreadKeys it'" and "k \<notin> pendingKeys it'"
    and "\<forall>k' \<in> pendingKeys it' \<union> unreadKeys it'. k < k'"
    and "insert k (pendingKeys it' \<union> unreadKeys it') = pendingKeys it \<union> unreadKeys it"
    and "k \<in> pendingKeys (snd (fetchLoop S it))"
    and "\<forall>k' \<in> pendingKeys (snd (fetchLoop S it)). k \<le> k'"
    and "2 \<le> lenMap (pageObjectsWithVersions (snd (fetchLoop S it)))
         \<or> (\<not> loadMore (snd (fetchLoop S it)) \<and> length pages \<le> marker (snd (fetchLoop S it)))"
proof -
  from Next_emit[OF nx] obtain it1 where
    f: "fetchLoop S it = (None, it1)"
    and ne: "lenMap (pageObjectsWithVersions it1) \<noteq> 0"
    and fk: "firstMapKey (pageObjectsWithVersions it1) = Inr k"
    and it': "it' = it1\<lparr>pageObjectsWithVersions := AList.delete k (pageObjectsWithVersions it1)\<rparr>"
    by blast
  from fetch_inv[OF wt asc inv f] have inv1: "iterInv pages it1"
    and all: "pendingKeys it1 \<union> unreadKeys it1 = pendingKeys it \<union> unreadKeys it"
    and ex: "\<not> (loadMore it1 \<and> lenMap (pageObjectsWithVersions it1) \<le> 1)"
    by auto
  from firstMapKey_least[OF ne] fk have kin: "k \<in> pendingKeys it1"
    and kmin: "\<forall>k' \<in> pendingKeys it1. k \<le> k'"
    by (auto simp: pendingKeys_def)
  have st1: "stream it1 = map Some pages" using inv1 by (simp add: iterInv_def)
  have pk': "pendingKeys it' = pendingKeys it1 - {k}"
    by (simp add: it' pendingKeys_def keys_delete)
  have uk': "unreadKeys it' = unreadKeys it1" by (simp add: it' unreadKeys_def)
  have ord1: "\<forall>a \<in> pendingKeys it1. \<forall>b \<in> unreadKeys it1. a \<le> b"
    using inv1 by (simp add: iterInv_def)
  have nun: "k \<notin> unreadKeys it1"
  proof (cases "loadMore it1")
    case False
    then have "length pages \<le> marker it1" using inv1 by (simp add: iterInv_def)
    then show ?thesis using unreadKeys_exhausted[OF st1] by simp
  next
    case True
    with ex have "2 \<le> card (pendingKeys it1)" by (simp add: lenMap_card pendingKeys_def)
    from card_ge2_other[OF this, of k] obtain k2 where k2: "k2 \<in> pendingKeys it1" "k2 \<noteq> k"
      by blast
    with kmin have "k < k2" by auto
    show ?thesis
    proof
      assume "k \<in> unreadKeys it1"
      with ord1 k2(1) have "k2 \<le> k" by blast
      with \<open>k < k2\<close> show False by simp
    qed
  qed
  show "iterInv pages it'"
    using inv1 pk' uk' by (auto simp: iterInv_def it' stream_def)
  show "k \<notin> unreadKeys it'" using nun uk' by simp
  show "k \<notin> pendingKeys it'" using pk' by simp
  show "\<forall>k' \<in> pendingKeys it' \<union> unreadKeys it'. k < k'"
  proof
    fix k' assume "k' \<in> pendingKeys it' \<union> unreadKeys it'"
    then consider "k' \<in> pendingKeys it1" "k' \<noteq> k" | "k' \<in> unreadKeys it1"
      using pk' uk' by auto
    then show "k < k'"
    proof cases
      case 1
      with kmin show ?thesis by auto
    next
      case 2
      with ord1 kin have "k \<le> k'" by blast
      moreover from 2 nun have "k \<noteq> k'" by auto
      ultimately show ?thesis by simp
    qed
  qed
  show "insert k (pendingKeys it' \<union> unreadKeys it') = pendingKeys it \<union> unreadKeys it"
    using all pk' uk' kin by auto
  show "k \<in> pendingKeys (snd (fetchLoop S it))" using f kin by simp
  show "\<forall>k' \<in> pendingKeys (snd (fetchLoop S it)). k \<le> k'" using f kmin by simp
  show "2 \<le> lenMap (pageObjectsWithVersions (snd (fetchLoop S it)))
         \<or> (\<not> loadMore (snd (fetchLoop S it)) \<and> length pages \<le> marker (snd (fetchLoop S it)))"
    using f ex inv1 by (auto simp: iterInv_def)
qed

lemma Next_end_inv:
  assumes wt: "wellTruncated pages" and asc: "keysAscending pages"
    and inv: "iterInv pages it" and nx: "Next S it = (Inl err, it')"
  shows "err = EOF" and "iterInv pages it'" and "it' = snd (fetchLoop S it)"
    and "pendingKeys it \<union> unreadKeys it = {}"
    and "lenMap (pageObjectsWithVersions it') = 0" and "\<not> loadMore it'"
    and "length pages \<le> marker it'"
proof -
  obtain e it1 where f: "fetchLoop S it = (e, it1)" by (cases "fetchLoop S it") auto
  from fetch_inv[OF wt asc inv f] have e: "e = None" and inv1: "iterInv pages it1"
    and all: "pendingKeys it1 \<union> unreadKeys it1 = pendingKeys it \<union> unreadKeys it"
    and ex: "\<not> (loadMore it1 \<and> lenMap (pageObjectsWithVersions it1) \<le> 1)"
    by auto
  have z: "lenMap (pageObjectsWithVersions it1) = 0"
  proof (rule ccontr)
    assume ne: "lenMap (pageObjectsWithVersions it1) \<noteq> 0"
    from firstMapKey_least[OF ne] obtain k where "firstMapKey (pageObjectsWithVersions it1) = Inr k"
      by blast
    with nx f e ne show False by (simp add: Next_def)
  qed
  with nx f e show "err = EOF" and i1: "it' = snd (fetchLoop S it)" by (simp_all add: Next_def)
  with f have eq: "it' = it1" by simp
  show "iterInv pages it'" using inv1 eq by simp
  show "lenMap (pageObjectsWithVersions it') = 0" using z eq by simp
  from ex z show nl: "\<not> loadMore it'" using eq by simp
  with inv1 eq show le: "length pages \<le> marker it'" by (simp add: iterInv_def)
  have "unreadKeys it1 = {}"
    using unreadKeys_exhausted[of it1 pages] inv1 le eq by (simp add: iterInv_def)
  moreover have "pendingKeys it1 = {}"
    using z by (simp add: lenMap_card pendingKeys_def)
  ultimately show "pendingKeys it \<union> unreadKeys it = {}" using all by simp
qed

lemma drain_keys:
  assumes wt: "wellTruncated pages" and asc: "keysAscending pages"
  shows "iterInv pages it \<Longrightarrow>
         snd (drain S it) = EOF
       \<and> set (map fst (fst (drain S it))) = pendingKeys it \<union> unreadKeys it
       \<and> sorted_wrt (<) (map fst (fst (drain S it)))"
proof (induction S it rule: drain.induct)
  case (1 S it)
  obtain r it' where nx: "Next S it = (r, it')" by (cases "Next S it") auto
  show ?case
  proof (cases r)
    case (Inl err)
    with nx have d: "drain S it = ([], err)" by (subst drain.simps) simp
    from Next_end_inv[OF wt asc "1.prems" nx[unfolded Inl]] d show ?thesis by simp
  next
    case (Inr kv)
    obtain k vs where kv: "kv = (k, vs)" by (cases kv) auto
    have nx': "Next S it = (Inr (k, vs), it')" using nx Inr kv by simp
    note facts = Next_emit_inv[OF wt asc "1.prems" nx']
    have ih: "snd (drain S it') = EOF
       \<and> set (map fst (fst (drain S it'))) = pendingKeys it' \<union> unreadKeys it'
       \<and> sorted_wrt (<) (map fst (fst (drain S it')))"
      using "1.IH"[OF nx[symmetric] _ facts(1)] Inr by simp
    have d: "drain S it = ((k, vs) # fst (drain S it'), snd (drain S it'))"
      using nx' by (subst drain.simps) (simp split: prod.splits)
    show ?thesis using d ih facts(4,5) by auto
  qed
qed

lemma List_inv:
  "listObjectVersions cl b pf = map Some pages \<Longrightarrow> iterInv pages (List cl b pf)"
  by (simp add: iterInv_def List_def stream_def pendingKeys_def)

lemma List_keys:
  "listObjectVersions cl b pf = map Some pages \<Longrightarrow>
   pendingKeys (List cl b pf) \<union> unreadKeys (List cl b pf) = (\<Union>p \<in> set pages. set (pageKeys p))"
  by (simp add: unreadKeys_pages stream_def List_def pendingKeys_def)

lemma afterCalls_inv:
  assumes wt: "wellTruncated pages" and asc: "keysAscending pages" and inv: "iterInv pages it"
  shows "iterInv pages (afterCalls S n it)"
proof (induction n)
  case 0
  then show ?case using inv by (simp add: afterCalls_def)
next
  case (Suc n)
  let ?it = "afterCalls S n it"
  obtain r it' where nx: "Next S ?it = (r, it')" by (cases "Next S ?it") auto
  have "iterInv pages it'"
  proof (cases r)
    case (Inl err)
    then show ?thesis using Next_end_inv(2)[OF wt asc Suc] nx by blast
  next
    case (Inr kv)
    then show ?thesis using Next_emit_inv(1)[OF wt asc Suc, of S "fst kv" "snd kv" it'] nx by simp
  qed
  then show ?case using nx by (simp add: afterCalls_def)
qed

lemma goodSlice_Nil: "goodSlice []"
  by (simp add: goodSlice_def)

lemma goodMap_sliceOf: "goodMap ovm \<Longrightarrow> goodSlice (sliceOf ovm k)"
  by (auto simp: goodMap_def sliceOf_def goodSlice_Nil split: option.splits)

lemma Add_goodMap:
  assumes "sortFuncContract S" "goodMap ovm" "op = OperationTypeDelete \<longrightarrow> et = []"
  shows "goodMap (Add S ovm key vid op ts il et)"
proof -
  let ?r = "\<lparr>VersionID = vid, Operation = op, Timestamp = ts, IsLatest = il, ETag = et\<rparr>"
  have "goodSlice (S (sliceOf ovm key @ [?r]) cmpTimestamp)"
    using goodMap_sliceOf[OF assms(2), of key] assms(3)
    by (auto simp: goodSlice_def contract_sorted[OF assms(1)] contract_set[OF assms(1)])
  then show ?thesis using assms(2) by (simp add: goodMap_def map_of_Add)
qed

lemma storePage_goodMap:
  assumes "sortFuncContract S" "goodMap ovm"
  shows "goodMap (storePage S ovm p)"
proof -
  have v: "goodMap m \<Longrightarrow> goodMap (storeVersions S m vs)" for m vs
    unfolding storeVersions_def
    by (induction vs arbitrary: m) (simp_all add: Add_goodMap[OF assms(1)])
  have d: "goodMap m \<Longrightarrow> goodMap (storeDeleteMarkers S m ms)" for m ms
    unfolding storeDeleteMarkers_def
    by (induction ms arbitrary: m) (simp_all add: Add_goodMap[OF assms(1)])
  show ?thesis using assms(2) by (simp add: storePage_def v d)
qed

lemma fetch_good:
  "sortFuncContract S \<Longrightarrow> goodMap (pageObjectsWithVersions it) \<Longrightarrow>
   fetchLoop S it = (e, it1) \<Longrightarrow>
         goodMap (pageObjectsWithVersions it1)"
proof (induction S it arbitrary: e it1 rule: fetchLoop.induct)
  case (1 S it)
  show ?case
  proof (cases "loadMore it \<and> lenMap (pageObjectsWithVersions it) \<le> 1")
    case False
    then have "fetchLoop S it = (None, it)" by (rule fetchLoop_stop)
    with 1 show ?thesis by simp
  next
    case True
    show ?thesis
    proof (cases "ListObjectVersions (c it) (bucket it) (prefix it) (marker it)")
      case None
      then have "fetchLoop S it = (Some ListingError, it)" by (rule fetchLoop_fail[OF True])
      with 1 show ?thesis by simp
    next
      case (Some pn)
      obtain p n where pn: "pn = (p, n)" by (cases pn) auto
      let ?it2 = "it\<lparr>loadMore := IsTruncated p, marker := n,
          pageObjectsWithVersions := storePage S (pageObjectsWithVersions it) p\<rparr>"
      have lov: "ListObjectVersions (c it) (bucket it) (prefix it) (marker it) = Some (p, n)"
        using Some pn by simp
      have f: "fetchLoop S ?it2 = (e, it1)"
        using fetchLoop_step[OF True lov, of S] "1.prems" by simp
      have g: "goodMap (pageObjectsWithVersions ?it2)"
        using storePage_goodMap[OF "1.prems"(1) "1.prems"(2)] by simp
      show ?thesis by (rule "1.IH"[OF True lov refl "1.prems"(1) g f])
    qed
  qed
qed

lemma goodMap_delete: "goodMap m \<Longrightarrow> goodMap (AList.delete k m)"
  by (simp add: goodMap_def delete_conv')

lemma Next_good:
  assumes "sortFuncContract S" "goodMap (pageObjectsWithVersions it)"
    "Next S it = (Inr (k, vs), it')"
  shows "goodSlice vs \<and> goodMap (pageObjectsWithVersions it')"
proof -
  from Next_emit[OF assms(3)] obtain it1 where
    f: "fetchLoop S it = (None, it1)"
    and vs: "vs = sliceOf (pageObjectsWithVersions it1) k"
    and it': "it' = it1\<lparr>pageObjectsWithVersions := AList.delete k (pageObjectsWithVersions it1)\<rparr>"
    by blast
  from fetch_good[OF assms(1,2) f] have "goodMap (pageObjectsWithVersions it1)" .
  then show ?thesis using vs it' by (simp add: goodMap_sliceOf goodMap_delete)
qed

lemma drain_good:
  "sortFuncContract S \<Longrightarrow> goodMap (pageObjectsWithVersions it) \<Longrightarrow>
   (k, vs) \<in> set (fst (drain S it)) \<Longrightarrow>
         goodSlice vs"
proof (induction S it rule: drain.induct)
  case (1 S it)
  obtain r it' where nx: "Next S it = (r, it')" by (cases "Next S it") auto
  show ?case
  proof (cases r)
    case (Inl err)
    with nx have "drain S it = ([], err)" by (subst drain.simps) simp
    with "1.prems" show ?thesis by simp
  next
    case (Inr kv)
    obtain k0 vs0 where kv: "kv = (k0, vs0)" by (cases kv) auto
    have nx': "Next S it = (Inr (k0, vs0), it')" using nx Inr kv by simp
    have d: "drain S it = ((k0, vs0) # fst (drain S it'), snd (drain S it'))"
      using nx' by (subst drain.simps) (simp split: prod.splits)
    from Next_good[OF "1.prems"(1,2) nx'] have g0: "goodSlice vs0"
      and g': "goodMap (pageObjectsWithVersions it')" by auto
    from "1.prems"(3) d consider "(k, vs) = (k0, vs0)" | "(k, vs) \<in> set (fst (drain S it'))"
      by auto
    then show ?thesis
    proof cases
      case 1
      with g0 show ?thesis by simp
    next
      case 2
      show ?thesis using "1.IH"[OF nx[symmetric] _ "1.prems"(1) g' 2] Inr by simp
    qed
  qed
qed

lemma recordsFor_append: "recordsFor k (xs @ ys) = recordsFor k xs @ recordsFor k ys"
  by (simp add: recordsFor_def)

lemma recordsFor_no_key: "k \<notin> fst ` set calls \<Longrightarrow> recordsFor k calls = []"
  by (auto simp: recordsFor_def filter_empty_conv)

lemma fst_streamCalls: "fst ` set (streamCalls pages) = (\<Union>p \<in> set pages. set (pageKeys p))"
  by (auto simp: streamCalls_def fst_pageCalls[symmetric])

lemma fetch_records:
  "sortFuncContract S \<Longrightarrow> stream it = map Some pages \<Longrightarrow> fetchLoop S it = (e, it1) \<Longrightarrow>
         mset (sliceOf (pageObjectsWithVersions it1) k)
           + mset (recordsFor k (streamCalls (drop (marker it1) pages)))
       = mset (sliceOf (pageObjectsWithVersions it) k)
           + mset (recordsFor k (streamCalls (drop (marker it) pages)))"
proof (induction S it arbitrary: e it1 rule: fetchLoop.induct)
  case (1 S it)
  note st = \<open>stream it = map Some pages\<close>
  then have lo: "listObjectVersions (c it) (bucket it) (prefix it) = map Some pages"
    by (simp add: stream_def)
  show ?case
  proof (cases "loadMore it \<and> lenMap (pageObjectsWithVersions it) \<le> 1")
    case False
    then have "fetchLoop S it = (None, it)" by (rule fetchLoop_stop)
    with 1 show ?thesis by simp
  next
    case True
    show ?thesis
    proof (cases "marker it < length pages")
      case less: True
      let ?p = "pages ! marker it"
      let ?it2 = "it\<lparr>loadMore := IsTruncated ?p, marker := Suc (marker it),
          pageObjectsWithVersions := storePage S (pageObjectsWithVersions it) ?p\<rparr>"
      have lov: "ListObjectVersions (c it) (bucket it) (prefix it) (marker it)
                   = Some (?p, Suc (marker it))"
        using less by (simp add: ListObjectVersions_pages[OF lo])
      have f: "fetchLoop S ?it2 = (e, it1)"
        using fetchLoop_step[OF True lov, of S] "1.prems" by simp
      have st2: "stream ?it2 = map Some pages" using st by (simp add: stream_def)
      have ih: "mset (sliceOf (pageObjectsWithVersions it1) k)
           + mset (recordsFor k (streamCalls (drop (marker it1) pages)))
       = mset (sliceOf (pageObjectsWithVersions ?it2) k)
           + mset (recordsFor k (streamCalls (drop (marker ?it2) pages)))"
        by (rule "1.IH"[OF True lov refl "1.prems"(1) st2 f])
      have dr: "drop (marker it) pages = ?p # drop (Suc (marker it)) pages"
        using less by (simp add: Cons_nth_drop_Suc)
      have "mset (sliceOf (pageObjectsWithVersions ?it2) k)
           + mset (recordsFor k (streamCalls (drop (marker ?it2) pages)))
         = mset (sliceOf (pageObjectsWithVersions it) k)
           + mset (recordsFor k (streamCalls (drop (marker it) pages)))"
        by (simp add: dr streamCalls_def recordsFor_append storePage_addCalls
            addCalls_mset[OF "1.prems"(1)])
      with ih show ?thesis by simp
    next
      case False
      let ?it2 = "it\<lparr>loadMore := False, marker := marker it,
          pageObjectsWithVersions := pageObjectsWithVersions it\<rparr>"
      have lov: "ListObjectVersions (c it) (bucket it) (prefix it) (marker it)
                   = Some (\<lparr>Versions = [], DeleteMarkers = [], IsTruncated = False\<rparr>, marker it)"
        using False by (simp add: ListObjectVersions_pages[OF lo])
      have f: "fetchLoop S ?it2 = (e, it1)"
        using fetchLoop_step[OF True lov, of S] "1.prems" by (simp add: storePage_empty)
      have st2: "stream ?it2 = map Some pages" using st by (simp add: stream_def)
      show ?thesis
        using "1.IH"[OF True lov refl "1.prems"(1)] st2 f by (simp add: storePage_empty)
    qed
  qed
qed

lemma unread_records_none:
  assumes "stream it = map Some pages" "k \<notin> unreadKeys it"
  shows "recordsFor k (streamCalls (drop (marker it) pages)) = []"
  using assms by (simp add: recordsFor_no_key fst_streamCalls unreadKeys_pages)

lemma sliceOf_delete: "k' \<noteq> k \<Longrightarrow> sliceOf (AList.delete k m) k' = sliceOf m k'"
  by (simp add: sliceOf_def)

lemma drain_records:
  assumes wt: "wellTruncated pages" and asc: "keysAscending pages"
  shows "sortFuncContract S \<Longrightarrow> iterInv pages it \<Longrightarrow> (k, vs) \<in> set (fst (drain S it)) \<Longrightarrow>
         mset vs = mset (sliceOf (pageObjectsWithVersions it) k)
                 + mset (recordsFor k (streamCalls (drop (marker it) pages)))"
proof (induction S it rule: drain.induct)
  case (1 S it)
  obtain r it' where nx: "Next S it = (r, it')" by (cases "Next S it") auto
  show ?case
  proof (cases r)
    case (Inl err)
    with nx have "drain S it = ([], err)" by (subst drain.simps) simp
    with "1.prems" show ?thesis by simp
  next
    case (Inr kv)
    obtain k0 vs0 where kv: "kv = (k0, vs0)" by (cases kv) auto
    have nx': "Next S it = (Inr (k0, vs0), it')" using nx Inr kv by simp
    have d: "drain S it = ((k0, vs0) # fst (drain S it'), snd (drain S it'))"
      using nx' by (subst drain.simps) (simp split: prod.splits)
    from Next_emit[OF nx'] obtain it1 where
      f: "fetchLoop S it = (None, it1)"
      and vs0: "vs0 = sliceOf (pageObjectsWithVersions it1) k0"
      and it': "it' = it1\<lparr>pageObjectsWithVersions := AList.delete k0 (pageObjectsWithVersions it1)\<rparr>"
      by blast
    note facts = Next_emit_inv[OF wt asc "1.prems"(2) nx']
    have st: "stream it = map Some pages" using "1.prems"(2) by (simp add: iterInv_def)
    have st': "stream it' = map Some pages" using facts(1) by (simp add: iterInv_def)
    have st1: "stream it1 = map Some pages" using st' it' by (simp add: stream_def)
    have m1: "marker it' = marker it1" by (simp add: it')
    note fr = fetch_records[OF "1.prems"(1) st f]
    have un1: "unreadKeys it1 = unreadKeys it'" by (simp add: it' unreadKeys_def)
    from "1.prems"(3) d consider "(k, vs) = (k0, vs0)" | "(k, vs) \<in> set (fst (drain S it'))"
      by auto
    then show ?thesis
    proof cases
      case 1
      have "recordsFor k0 (streamCalls (drop (marker it1) pages)) = []"
        using unread_records_none[OF st1] facts(2) un1 by simp
      with fr[of k0] vs0 1 show ?thesis by simp
    next
      case 2
      have ih: "mset vs = mset (sliceOf (pageObjectsWithVersions it') k)
                 + mset (recordsFor k (streamCalls (drop (marker it') pages)))"
        using "1.IH"[OF nx[symmetric] _ "1.prems"(1) facts(1) 2] Inr by simp
      have "k \<in> set (map fst (fst (drain S it')))" using 2 by force
      then have "k \<in> pendingKeys it' \<union> unreadKeys it'"
        using drain_keys[OF wt asc facts(1), of S] by simp
      with facts(4) have "k0 < k" by blast
      then have "k \<noteq> k0" by simp
      then have "sliceOf (pageObjectsWithVersions it') k = sliceOf (pageObjectsWithVersions it1) k"
        by (simp add: it' sliceOf_delete)
      with ih m1 fr[of k] show ?thesis by simp
    qed
  qed
qed

lemma mset_pageCalls:
  "mset (pageCalls p) = image_mset versionCall (mset (Versions p))
                      + image_mset markerCall (mset (DeleteMarkers p))"
  by (simp add: pageCalls_def)

lemma mset_streamCalls:
  "mset (streamCalls pages) = image_mset versionCall (mset (concat (map Versions pages)))
                            + image_mset markerCall (mset (concat (map DeleteMarkers pages)))"
  by (induction pages) (simp_all add: streamCalls_def mset_pageCalls)

lemma mset_recordsFor:
  "mset (recordsFor k calls) = image_mset recordOf (filter_mset (\<lambda>call. fst call = k) (mset calls))"
  by (simp add: recordsFor_def)

lemma sameRecords_calls:
  "sameRecords pagesA pagesB \<Longrightarrow> mset (streamCalls pagesA) = mset (streamCalls pagesB)"
  by (simp add: sameRecords_def mset_streamCalls)

lemma drain_List:
  assumes c: "sortFuncContract S" and wt: "wellTruncated pages" and asc: "keysAscending pages"
  shows "snd (drain S (List (pagesClient pages) b pf)) = EOF"
    and "set (map fst (fst (drain S (List (pagesClient pages) b pf))))
           = fst ` set (streamCalls pages)"
    and "sorted_wrt (<) (map fst (fst (drain S (List (pagesClient pages) b pf))))"
    and "(k, vs) \<in> set (fst (drain S (List (pagesClient pages) b pf))) \<Longrightarrow>
           mset vs = mset (recordsFor k (streamCalls pages)) \<and> sorted (map Timestamp vs)"
proof -
  let ?it = "List (pagesClient pages) b pf"
  have lo: "listObjectVersions (pagesClient pages) b pf = map Some pages"
    by (simp add: pagesClient_def)
  note inv = List_inv[OF lo]
  note dk = drain_keys[OF wt asc inv, of S]
  show "snd (drain S ?it) = EOF" using dk by simp
  show "set (map fst (fst (drain S ?it))) = fst ` set (streamCalls pages)"
    using dk List_keys[OF lo] by (simp add: fst_streamCalls)
  show "sorted_wrt (<) (map fst (fst (drain S ?it)))" using dk by simp
  assume m: "(k, vs) \<in> set (fst (drain S ?it))"
  have g: "goodMap (pageObjectsWithVersions ?it)" by (simp add: List_def goodMap_def)
  from drain_records[OF wt asc c inv m] drain_good[OF c g m]
  show "mset vs = mset (recordsFor k (streamCalls pages)) \<and> sorted (map Timestamp vs)"
    by (simp add: List_def sliceOf_def goodSlice_def)
qed

lemma strictly_sorted_unique:
  fixes xs ys :: "'a::linorder list"
  assumes "sorted_wrt (<) xs" "sorted_wrt (<) ys" "set xs = set ys"
  shows "xs = ys"
  using assms by (metis sorted_distinct_set_unique strict_sorted_iff)

section \<open>Facts about a second run\<close>


lemma clearLatest_fields [simp]:
  "Timestamp (clearLatest v) = Timestamp v" "ETag (clearLatest v) = ETag v"
  "\<not> IsLatest (clearLatest v)"
  by (simp_all add: clearLatest_def)








text \<open>
  The listings of the key written and deleted at the same time give the same
  histories and decisions under the library sort as under the insertion sort.
\<close>

lemma tied_listings_library_sort:
  "drain librarySort (List (pagesClient tiedOnePage) ''bucket'' None)
     = drain insertionSort (List (pagesClient tiedOnePage) ''bucket'' None)"
  "drain librarySort (List (pagesClient tiedTwoPages) ''bucket'' None)
     = drain insertionSort (List (pagesClient tiedTwoPages) ''bucket'' None)"
  "fst (mainLoop (pagesClient tiedTwoPages) librarySort ''bucket'' 5
          (List (pagesClient tiedTwoPages) ''bucket'' None))
     = [(''k'', Copy ''bucket'' ''bucket'' ''k'' ''v1'')]"
  "fst (mainLoop (pagesClient tiedAfterCopy) librarySort ''bucket'' 5
          (List (pagesClient tiedAfterCopy) ''bucket'' None))
     = [(''k'', Delete ''bucket'' ''k'')]"
  by code_simp+

section \<open>The restore decision: claims\<close>

text \<open>
  Claim C2. For a history sorted ascending by timestamp, the version the decision
  step takes as the state at the reference time is the last record whose timestamp
  is strictly before the reference timestamp, and the zero \<open>ObjectVersion\<close> when
  there is none. When some record is before the reference time, the chosen record
  is one of the history, is before the reference time, and no record before the
  reference time is later than it.
\<close>

theorem versionAtTimestamp_last_before:
  assumes "sorted (map Timestamp versions)"
  shows "versionAtTimestamp referenceTimestamp versions =
           (case filter (\<lambda>v. Timestamp v < referenceTimestamp) versions of
              [] \<Rightarrow> ZeroObjectVersion
            | x # xs \<Rightarrow> last (x # xs))
         \<and> (\<forall>u \<in> set versions. Timestamp u < referenceTimestamp \<longrightarrow>
               versionAtTimestamp referenceTimestamp versions \<in> set versions
             \<and> Timestamp (versionAtTimestamp referenceTimestamp versions) < referenceTimestamp
             \<and> Timestamp u \<le> Timestamp (versionAtTimestamp referenceTimestamp versions))"
proof (intro conjI ballI impI)
  show "versionAtTimestamp referenceTimestamp versions =
           (case filter (\<lambda>v. Timestamp v < referenceTimestamp) versions of
              [] \<Rightarrow> ZeroObjectVersion
            | x # xs \<Rightarrow> last (x # xs))"
    by (simp add: versionAtTimestamp_filter split: list.splits)
next
  fix u assume u: "u \<in> set versions" "Timestamp u < referenceTimestamp"
  then have ne: "filter (\<lambda>v. Timestamp v < referenceTimestamp) versions \<noteq> []"
    by (auto simp: filter_empty_conv)
  from versionAtTimestamp_in_set[OF ne]
  show "versionAtTimestamp referenceTimestamp versions \<in> set versions"
    and "Timestamp (versionAtTimestamp referenceTimestamp versions) < referenceTimestamp"
    by simp_all
  from sorted_filter_last_max[OF assms u(1), of "\<lambda>v. Timestamp v < referenceTimestamp"] u(2) ne
  show "Timestamp u \<le> Timestamp (versionAtTimestamp referenceTimestamp versions)"
    by (simp add: versionAtTimestamp_filter)
qed

theorem versionAtTimestamp_last_before_witness:
  "sorted (map Timestamp scenario1)
   \<and> versionAtTimestamp 15 scenario1 =
       \<lparr>VersionID = ''v0'', Operation = OperationTypePut, Timestamp = 10,
        IsLatest = False, ETag = ''etagA''\<rparr>
   \<and> versionAtTimestamp 5 scenario1 = ZeroObjectVersion"
proof -
  have s: "sorted (map Timestamp scenario1)" by (simp add: scenario1_def)
  have a: "versionAtTimestamp 15 scenario1 =
       \<lparr>VersionID = ''v0'', Operation = OperationTypePut, Timestamp = 10,
        IsLatest = False, ETag = ''etagA''\<rparr>"
    using versionAtTimestamp_last_before[OF s, of 15] by (simp add: scenario1_def)
  have b: "versionAtTimestamp 5 scenario1 = ZeroObjectVersion"
    using versionAtTimestamp_last_before[OF s, of 5] by (simp add: scenario1_def)
  from s a b show ?thesis by blast
qed

text \<open>
  Claim C3. When the etag of the record with \<open>IsLatest = True\<close> equals the etag of
  the version at the reference time, the decision is \<open>Skip\<close>: no call is made on
  the storage client. The zero \<open>ObjectVersion\<close> carries the empty etag; in
  particular, when both etags are empty (both are delete markers, or the current
  one is a marker and the key was absent), the decision is \<open>Skip\<close>.
\<close>

theorem restoreKey_skip_on_equal_etag:
  assumes "v \<in> set versions" and "IsLatest v"
    and "\<forall>u \<in> set versions. IsLatest u \<longrightarrow> u = v"
  shows "(ETag v = ETag (versionAtTimestamp referenceTimestamp versions) \<longrightarrow>
            restoreKey bucketName referenceTimestamp key versions = Skip)
       \<and> (ETag v = [] \<and> ETag (versionAtTimestamp referenceTimestamp versions) = [] \<longrightarrow>
            restoreKey bucketName referenceTimestamp key versions = Skip)
       \<and> ETag ZeroObjectVersion = []"
  using latestVersion_unique[OF assms, of referenceTimestamp]
  by (simp add: restoreKey_def Let_def ZeroObjectVersion_def)

theorem restoreKey_skip_on_equal_etag_witness:
  "last scenario4 \<in> set scenario4 \<and> IsLatest (last scenario4)
   \<and> ETag (last scenario4) = ETag (versionAtTimestamp 15 scenario4)
   \<and> restoreKey ''bucket'' 15 ''key'' scenario4 = Skip"
proof -
  have 1: "last scenario4 \<in> set scenario4" by (simp add: scenario4_def)
  have 2: "IsLatest (last scenario4)" by (simp add: scenario4_def)
  have 3: "\<forall>u \<in> set scenario4. IsLatest u \<longrightarrow> u = last scenario4"
    by (simp add: scenario4_def)
  have 4: "ETag (last scenario4) = ETag (versionAtTimestamp 15 scenario4)"
    by (simp add: scenario4_def versionAtTimestamp_def)
  have "restoreKey ''bucket'' 15 ''key'' scenario4 = Skip"
    using restoreKey_skip_on_equal_etag[OF 1 2 3, of 15 "''bucket''" "''key''"] 4 by blast
  with 1 2 4 show ?thesis by blast
qed

text \<open>
  Claim C4. When the etag of the record with \<open>IsLatest = True\<close> differs from the
  etag of the version at the reference time, the program calls \<open>Delete\<close> on the
  key if that version is the zero \<open>ObjectVersion\<close> or its operation is
  \<open>DELETE\<close>, and otherwise calls \<open>Copy\<close> within the bucket, from the key at that
  version's id onto the same key. Under the storage service as the specification
  describes it, the call succeeds and every record of the history is still among
  the records the service holds afterwards, changed at most in its latest flag.
\<close>

theorem restoreKey_mutation_choice:
  assumes "v \<in> set versions" and "IsLatest v"
    and "\<forall>u \<in> set versions. IsLatest u \<longrightarrow> u = v"
    and "ETag v \<noteq> ETag (versionAtTimestamp referenceTimestamp versions)"
  shows "restoreKey bucketName referenceTimestamp key versions =
           (if versionAtTimestamp referenceTimestamp versions = ZeroObjectVersion
               \<or> Operation (versionAtTimestamp referenceTimestamp versions) = OperationTypeDelete
            then Delete bucketName key
            else Copy bucketName bucketName key
                   (VersionID (versionAtTimestamp referenceTimestamp versions)))
       \<and> (case recordsAfterAction (restoreKey bucketName referenceTimestamp key versions)
                 versions newVersionID now of
            None \<Rightarrow> False
          | Some after \<Rightarrow> mset (map clearLatest versions) \<subseteq># after)"
proof -
  let ?at = "versionAtTimestamp referenceTimestamp versions"
  have lv: "latestVersion referenceTimestamp versions = v"
    by (rule latestVersion_unique[OF assms(1-3)])
  have 1: "restoreKey bucketName referenceTimestamp key versions =
           (if ?at = ZeroObjectVersion \<or> Operation ?at = OperationTypeDelete
            then Delete bucketName key
            else Copy bucketName bucketName key (VersionID ?at))"
    using assms(4) lv by (simp add: restoreKey_def Let_def)
  have found: "find (\<lambda>u. VersionID u = VersionID ?at) versions \<noteq> None"
    if "?at \<noteq> ZeroObjectVersion"
  proof -
    from that have "filter (\<lambda>u. Timestamp u < referenceTimestamp) versions \<noteq> []"
      by (auto simp: versionAtTimestamp_filter)
    then have "?at \<in> set versions" using versionAtTimestamp_in_set by blast
    then show ?thesis by (auto simp: find_None_iff)
  qed
  have 2: "(case recordsAfterAction (restoreKey bucketName referenceTimestamp key versions)
                 versions newVersionID now of
            None \<Rightarrow> False
          | Some after \<Rightarrow> mset (map clearLatest versions) \<subseteq># after)"
  proof (cases "?at = ZeroObjectVersion \<or> Operation ?at = OperationTypeDelete")
    case True
    with 1 show ?thesis by (simp add: recordsAfterDelete_def)
  next
    case False
    with found obtain src where "find (\<lambda>u. VersionID u = VersionID ?at) versions = Some src"
      by auto
    with 1 False show ?thesis by (simp add: recordsAfterCopy_def)
  qed
  from 1 2 show ?thesis by blast
qed

theorem restoreKey_mutation_choice_witness:
  "last scenario1 \<in> set scenario1 \<and> IsLatest (last scenario1)
   \<and> ETag (last scenario1) \<noteq> ETag (versionAtTimestamp 15 scenario1)
   \<and> restoreKey ''bucket'' 15 ''key'' scenario1 = Copy ''bucket'' ''bucket'' ''key'' ''v0''
   \<and> last scenario2 \<in> set scenario2 \<and> IsLatest (last scenario2)
   \<and> ETag (last scenario2) \<noteq> ETag (versionAtTimestamp 5 scenario2)
   \<and> restoreKey ''bucket'' 5 ''key'' scenario2 = Delete ''bucket'' ''key''"
proof -
  have a1: "last scenario1 \<in> set scenario1" by (simp add: scenario1_def)
  have a2: "IsLatest (last scenario1)" by (simp add: scenario1_def)
  have a3: "\<forall>u \<in> set scenario1. IsLatest u \<longrightarrow> u = last scenario1"
    by (simp add: scenario1_def)
  have a4: "ETag (last scenario1) \<noteq> ETag (versionAtTimestamp 15 scenario1)"
    by (simp add: scenario1_def versionAtTimestamp_def)
  have a5: "versionAtTimestamp 15 scenario1 =
       \<lparr>VersionID = ''v0'', Operation = OperationTypePut, Timestamp = 10,
        IsLatest = False, ETag = ''etagA''\<rparr>"
    by (simp add: scenario1_def versionAtTimestamp_def)
  have a: "restoreKey ''bucket'' 15 ''key'' scenario1 = Copy ''bucket'' ''bucket'' ''key'' ''v0''"
    using restoreKey_mutation_choice[OF a1 a2 a3 a4, of "''bucket''" "''key''"]
    by (simp add: a5 ZeroObjectVersion_def OperationTypePut_def OperationTypeDelete_def)
  have b1: "last scenario2 \<in> set scenario2" by (simp add: scenario2_def)
  have b2: "IsLatest (last scenario2)" by (simp add: scenario2_def)
  have b3: "\<forall>u \<in> set scenario2. IsLatest u \<longrightarrow> u = last scenario2"
    by (simp add: scenario2_def)
  have b4: "ETag (last scenario2) \<noteq> ETag (versionAtTimestamp 5 scenario2)"
    by (simp add: scenario2_def versionAtTimestamp_def ZeroObjectVersion_def)
  have b5: "versionAtTimestamp 5 scenario2 = ZeroObjectVersion"
    by (simp add: scenario2_def versionAtTimestamp_def)
  have b: "restoreKey ''bucket'' 5 ''key'' scenario2 = Delete ''bucket'' ''key''"
    using restoreKey_mutation_choice[OF b1 b2 b3 b4, of "''bucket''" "''key''"]
    by (simp add: b5)
  from a1 a2 a4 a b1 b2 b4 b show ?thesis by blast
qed

section \<open>The version map: claims\<close>

text \<open>
  Claim C8. Whatever sort meeting the contract of \<^verbatim>\<open>slices.SortFunc\<close> is used:
  if every slice of the map is non-decreasing by timestamp, then after any sequence
  of \<^verbatim>\<open>Add\<close> calls, in any order of arrival, every slice of the map is
  non-decreasing by timestamp. The empty map that \<^verbatim>\<open>List\<close> creates is such a map.
\<close>

theorem Add_keeps_slices_sorted:
  assumes "sortFuncContract sortFunc" and "slicesSorted ovm"
  shows "slicesSorted (addCalls sortFunc ovm calls)"
  using assms(2) unfolding addCalls_def
proof (induction calls arbitrary: ovm)
  case Nil
  then show ?case by simp
next
  case (Cons call calls)
  obtain key versionID operation timestamp isLatest etag
    where "call = (key, versionID, operation, timestamp, isLatest, etag)"
    by (cases call) auto
  then have "slicesSorted (addCall sortFunc ovm call)"
    using Add_slicesSorted[OF assms(1) Cons.prems] by simp
  then show ?case using Cons.IH by simp
qed

theorem Add_keeps_slices_sorted_witness:
  "sortFuncContract insertionSort \<and> slicesSorted []
   \<and> slicesSorted (addCalls insertionSort [] callsNewestFirst)
   \<and> map (map Timestamp \<circ> snd) (addCalls insertionSort [] callsNewestFirst) = [[10, 20, 30]]"
proof -
  have 1: "sortFuncContract insertionSort" by (rule insertionSort_contract)
  have 2: "slicesSorted []" by (simp add: slicesSorted_def)
  have 3: "map (map Timestamp \<circ> snd) (addCalls insertionSort [] callsNewestFirst)
             = [[10, 20, 30]]"
    by (simp add: callsNewestFirst_def addCalls_def Add_def insertionSort_def cmpTimestamp_def)
  from 1 2 3 Add_keeps_slices_sorted[OF 1 2, of callsNewestFirst] show ?thesis by blast
qed

text \<open>
  Claim C9, as the code has it. Whatever sort meeting the contract of
  \<^verbatim>\<open>slices.SortFunc\<close> is used, the history that a sequence of \<^verbatim>\<open>Add\<close> calls on the
  empty map leaves under a key is a function of the sequence of calls: it holds
  exactly the records handed in for the key, in non-decreasing order of timestamp,
  and when these timestamps are pairwise distinct it is their stable sort. A key
  with no call has no entry. The order of records with equal timestamps is the one
  the library sort leaves, which its contract does not fix.
\<close>

theorem Add_history_sorted_permutation:
  assumes "sortFuncContract sortFunc"
  shows "case map_of (addCalls sortFunc [] calls) key of
           None \<Rightarrow> recordsFor key calls = []
         | Some sl \<Rightarrow>
             mset sl = mset (recordsFor key calls)
           \<and> sorted (map Timestamp sl)
           \<and> (distinct (map Timestamp (recordsFor key calls)) \<longrightarrow>
                sl = sort_key Timestamp (recordsFor key calls))"
proof (cases "map_of (addCalls sortFunc [] calls) key")
  case None
  then have "sliceOf (addCalls sortFunc [] calls) key = []" by (simp add: sliceOf_def)
  with addCalls_mset[OF assms, of "[]" calls key] None show ?thesis
    by (simp add: sliceOf_def)
next
  case (Some sl)
  then have s: "sliceOf (addCalls sortFunc [] calls) key = sl" by (simp add: sliceOf_def)
  have m: "mset sl = mset (recordsFor key calls)"
    using addCalls_mset[OF assms, of "[]" calls key] s by (simp add: sliceOf_def)
  have "slicesSorted (addCalls sortFunc [] calls)"
    by (rule addCalls_slicesSorted[OF assms]) (simp add: slicesSorted_def)
  with Some have so: "sorted (map Timestamp sl)" by (simp add: slicesSorted_iff)
  have "sl = sort_key Timestamp (recordsFor key calls)"
    if d: "distinct (map Timestamp (recordsFor key calls))"
  proof (rule sorted_distinct_unique[where f = Timestamp])
    show "mset sl = mset (sort_key Timestamp (recordsFor key calls))" using m by simp
    show "sorted (map Timestamp sl)" by (rule so)
    show "sorted (map Timestamp (sort_key Timestamp (recordsFor key calls)))" by simp
    show "distinct (map Timestamp (sort_key Timestamp (recordsFor key calls)))"
      using d by (metis distinct_map distinct_sort set_sort mset_eq_imp_distinct_iff)
  qed
  with Some m so show ?thesis by simp
qed

theorem Add_history_sorted_permutation_witness:
  "sortFuncContract insertionSort
   \<and> distinct (map Timestamp (recordsFor ''k'' callsNewestFirst))
   \<and> map_of (addCalls insertionSort [] callsNewestFirst) ''k''
       = Some (sort_key Timestamp (recordsFor ''k'' callsNewestFirst))"
proof -
  have 1: "sortFuncContract insertionSort" by (rule insertionSort_contract)
  have 2: "distinct (map Timestamp (recordsFor ''k'' callsNewestFirst))"
    by (simp add: callsNewestFirst_def recordsFor_def recordOf_def)
  have 3: "map_of (addCalls insertionSort [] callsNewestFirst) ''k'' \<noteq> None"
    by (simp add: callsNewestFirst_def addCalls_def Add_def update_conv')
  from Add_history_sorted_permutation[OF 1, where calls = callsNewestFirst and key = "''k''"] 2 3
  have "map_of (addCalls insertionSort [] callsNewestFirst) ''k''
       = Some (sort_key Timestamp (recordsFor ''k'' callsNewestFirst))"
    by (cases "map_of (addCalls insertionSort [] callsNewestFirst) ''k''") simp_all
  with 1 2 show ?thesis by blast
qed

text \<open>
  Claim C9, as stated, fails. Thirteen records are added for one key: twelve of
  time 2, \<open>r00\<close> to \<open>r11\<close> in this order, and then \<open>r12\<close> of time 1. Up to the
  twelfth call the slice has at most 12 elements and the library sorts it by
  insertion, which leaves it as it is. At the thirteenth call the slice has 13
  elements: the library takes the element in the middle, \<open>r06\<close>, as the pivot and
  exchanges it with the first, \<open>r00\<close>; the partition then exchanges the second
  element, \<open>r01\<close>, with the last, \<open>r12\<close>, and puts the pivot in the second place; the
  two parts are sorted by insertion and do not change. The history ends as
  \<open>r12\<close>, \<open>r06\<close>, \<open>r02\<close>, \<dots>, \<open>r05\<close>, \<open>r00\<close>, \<open>r07\<close>, \<dots>, \<open>r11\<close>, \<open>r01\<close>: the records
  of time 2 are not in their order of arrival, and the history is not the stable
  sort of the records handed in.
\<close>

theorem Add_ties_reordered_by_library_sort:
  "map VersionID (recordsFor ''k'' callsThirteen)
     = [''r00'', ''r01'', ''r02'', ''r03'', ''r04'', ''r05'', ''r06'', ''r07'', ''r08'',
        ''r09'', ''r10'', ''r11'', ''r12'']
   \<and> map_option (map VersionID)
       (slicesSortFunc (map recordOf callsThirteen) cmpTimestamp)
     = Some [''r12'', ''r06'', ''r02'', ''r03'', ''r04'', ''r05'', ''r00'', ''r07'', ''r08'',
             ''r09'', ''r10'', ''r11'', ''r01'']
   \<and> map VersionID (sliceOf (addCalls librarySort [] callsThirteen) ''k'')
     = [''r12'', ''r06'', ''r02'', ''r03'', ''r04'', ''r05'', ''r00'', ''r07'', ''r08'',
        ''r09'', ''r10'', ''r11'', ''r01'']
   \<and> map VersionID (sort_key Timestamp (recordsFor ''k'' callsThirteen))
     = [''r12'', ''r00'', ''r01'', ''r02'', ''r03'', ''r04'', ''r05'', ''r06'', ''r07'',
        ''r08'', ''r09'', ''r10'', ''r11'']
   \<and> map_of (addCalls librarySort [] callsThirteen) ''k''
       \<noteq> Some (sort_key Timestamp (recordsFor ''k'' callsThirteen))"
proof -
  have 1: "map VersionID (recordsFor ''k'' callsThirteen)
     = [''r00'', ''r01'', ''r02'', ''r03'', ''r04'', ''r05'', ''r06'', ''r07'', ''r08'',
        ''r09'', ''r10'', ''r11'', ''r12'']"
    by code_simp
  have 2: "map_option (map VersionID)
       (slicesSortFunc (map recordOf callsThirteen) cmpTimestamp)
     = Some [''r12'', ''r06'', ''r02'', ''r03'', ''r04'', ''r05'', ''r00'', ''r07'', ''r08'',
             ''r09'', ''r10'', ''r11'', ''r01'']"
    by code_simp
  have 3: "map VersionID (sliceOf (addCalls librarySort [] callsThirteen) ''k'')
     = [''r12'', ''r06'', ''r02'', ''r03'', ''r04'', ''r05'', ''r00'', ''r07'', ''r08'',
        ''r09'', ''r10'', ''r11'', ''r01'']"
    by code_simp
  have 4: "map VersionID (sort_key Timestamp (recordsFor ''k'' callsThirteen))
     = [''r12'', ''r00'', ''r01'', ''r02'', ''r03'', ''r04'', ''r05'', ''r06'', ''r07'',
        ''r08'', ''r09'', ''r10'', ''r11'']"
    by code_simp
  have 5: "map_of (addCalls librarySort [] callsThirteen) ''k''
       \<noteq> Some (sort_key Timestamp (recordsFor ''k'' callsThirteen))"
    by code_simp
  from 1 2 3 4 5 show ?thesis by blast
qed

section \<open>The iterator: claims\<close>

text \<open>
  Claim C6. Let the pages of a finite stream be in non-decreasing key order across
  pages, every page but the last flagged as truncated. Then calling \<^verbatim>\<open>Next\<close> until
  it fails ends with \<open>EOF\<close> and emits every key of the stream exactly once. At
  every call (the one after any number \<open>n\<close> of earlier calls): if it emits a
  key, no unread page has a record of that key, the key is the least of the keys
  held when the fetch loop ended, and at that moment at least two keys were held or
  no page remained; if it fails, it fails with \<open>EOF\<close>. It returns \<open>EOF\<close> exactly
  when, after the fetch loop, no key is held and no page remains.
\<close>

theorem Next_emits_each_key_once_when_complete:
  assumes wt: "wellTruncated pages" and asc: "keysAscending pages"
  shows "snd (drain sortFunc (List (pagesClient pages) bucketName pfx)) = EOF
       \<and> distinct (map fst (fst (drain sortFunc (List (pagesClient pages) bucketName pfx))))
       \<and> set (map fst (fst (drain sortFunc (List (pagesClient pages) bucketName pfx))))
           = (\<Union>p \<in> set pages. set (pageKeys p))
       \<and> (let it = afterCalls sortFunc n (List (pagesClient pages) bucketName pfx);
              it1 = snd (fetchLoop sortFunc it)
          in (case Next sortFunc it of
                (Inr (key, versions), it') \<Rightarrow>
                    key \<notin> unreadKeys it'
                  \<and> key \<in> pendingKeys it1
                  \<and> (\<forall>k \<in> pendingKeys it1. key \<le> k)
                  \<and> (2 \<le> lenMap (pageObjectsWithVersions it1)
                     \<or> (\<not> loadMore it1 \<and> length pages \<le> marker it1))
              | (Inl err, it') \<Rightarrow> err = EOF)
           \<and> (fst (Next sortFunc it) = Inl EOF \<longleftrightarrow>
                lenMap (pageObjectsWithVersions it1) = 0
              \<and> \<not> loadMore it1 \<and> length pages \<le> marker it1))"
proof -
  let ?start = "List (pagesClient pages) bucketName pfx"
  let ?it = "afterCalls sortFunc n ?start"
  let ?it1 = "snd (fetchLoop sortFunc ?it)"
  have lo: "listObjectVersions (pagesClient pages) bucketName pfx = map Some pages"
    by (simp add: pagesClient_def)
  note inv0 = List_inv[OF lo]
  note dk = drain_keys[OF wt asc inv0, of sortFunc]
  have 1: "snd (drain sortFunc ?start) = EOF" using dk by simp
  have 2: "distinct (map fst (fst (drain sortFunc ?start)))"
    using dk by (simp add: strict_sorted_iff)
  have 3: "set (map fst (fst (drain sortFunc ?start))) = (\<Union>p \<in> set pages. set (pageKeys p))"
    using dk List_keys[OF lo] by simp
  have inv: "iterInv pages ?it" by (rule afterCalls_inv[OF wt asc inv0])
  obtain r it' where nx: "Next sortFunc ?it = (r, it')" by (cases "Next sortFunc ?it") auto
  have 4: "(case Next sortFunc ?it of
                (Inr (key, versions), it') \<Rightarrow>
                    key \<notin> unreadKeys it'
                  \<and> key \<in> pendingKeys ?it1
                  \<and> (\<forall>k \<in> pendingKeys ?it1. key \<le> k)
                  \<and> (2 \<le> lenMap (pageObjectsWithVersions ?it1)
                     \<or> (\<not> loadMore ?it1 \<and> length pages \<le> marker ?it1))
              | (Inl err, it') \<Rightarrow> err = EOF)
           \<and> (fst (Next sortFunc ?it) = Inl EOF \<longleftrightarrow>
                lenMap (pageObjectsWithVersions ?it1) = 0
              \<and> \<not> loadMore ?it1 \<and> length pages \<le> marker ?it1)"
  proof (cases r)
    case (Inl err)
    note e = Next_end_inv[OF wt asc inv nx[unfolded Inl]]
    from e(1,3,5,6,7) nx Inl show ?thesis by simp
  next
    case (Inr kv)
    obtain k vs where kv: "kv = (k, vs)" by (cases kv) auto
    have nx': "Next sortFunc ?it = (Inr (k, vs), it')" using nx Inr kv by simp
    note e = Next_emit_inv[OF wt asc inv nx']
    from Next_emit[OF nx'] have "lenMap (pageObjectsWithVersions ?it1) \<noteq> 0" by auto
    with e(2,6,7,8) nx' show ?thesis by simp
  qed
  from 1 2 3 4 show ?thesis by (simp add: Let_def)
qed

theorem Next_emits_each_key_once_when_complete_witness:
  "wellTruncated pagesOfTwo \<and> keysAscending pagesOfTwo
   \<and> snd (drain insertionSort (List (pagesClient pagesOfTwo) ''bucket'' None)) = EOF
   \<and> distinct (map fst (fst (drain insertionSort (List (pagesClient pagesOfTwo) ''bucket'' None))))
   \<and> map fst (fst (drain insertionSort (List (pagesClient pagesOfTwo) ''bucket'' None)))
       = [''a'', ''b'', ''c'']
   \<and> map_sum id fst (fst (Next insertionSort (List (pagesClient pagesOfTwo) ''bucket'' None)))
       = Inr ''a''
   \<and> marker (snd (Next insertionSort (List (pagesClient pagesOfTwo) ''bucket'' None))) = 2"
proof -
  have 1: "wellTruncated pagesOfTwo" by code_simp
  have 2: "keysAscending pagesOfTwo" by code_simp
  note t = Next_emits_each_key_once_when_complete[OF 1 2,
      where sortFunc = insertionSort and bucketName = "''bucket''" and pfx = None and n = 0]
  from t have 3: "snd (drain insertionSort (List (pagesClient pagesOfTwo) ''bucket'' None)) = EOF"
    by blast
  from t have 4:
    "distinct (map fst (fst (drain insertionSort (List (pagesClient pagesOfTwo) ''bucket'' None))))"
    by blast
  have 5: "map fst (fst (drain insertionSort (List (pagesClient pagesOfTwo) ''bucket'' None)))
       = [''a'', ''b'', ''c'']"
    by code_simp
  have 6: "map_sum id fst (fst (Next insertionSort (List (pagesClient pagesOfTwo) ''bucket'' None)))
       = Inr ''a''"
    by code_simp
  have 7: "marker (snd (Next insertionSort (List (pagesClient pagesOfTwo) ''bucket'' None))) = 2"
    by code_simp
  from 1 2 3 4 5 6 7 show ?thesis by blast
qed

text \<open>
  Claim C7, as the code has it. Let two page streams hold the same versions and
  delete markers, each in non-decreasing key order across pages with every page but
  the last flagged as truncated, and let the sort meet the contract of
  \<^verbatim>\<open>slices.SortFunc\<close>. Then the two runs emit the same keys in the same order, and
  for each key the two histories hold the same records and are both non-decreasing
  by timestamp; they are the same sequence when the timestamps of the key's records
  are pairwise distinct. When that is so for every key, the two runs emit the same
  sequence of pairs.
\<close>

theorem drain_same_records_any_paging:
  assumes c: "sortFuncContract sortFunc"
    and "wellTruncated pagesA" and "keysAscending pagesA"
    and "wellTruncated pagesB" and "keysAscending pagesB"
    and same: "sameRecords pagesA pagesB"
  shows "map fst (fst (drain sortFunc (List (pagesClient pagesA) bucketA pfxA)))
           = map fst (fst (drain sortFunc (List (pagesClient pagesB) bucketB pfxB)))
       \<and> list_all2 (\<lambda>(keyA, versionsA) (keyB, versionsB).
             keyA = keyB
           \<and> mset versionsA = mset versionsB
           \<and> sorted (map Timestamp versionsA) \<and> sorted (map Timestamp versionsB)
           \<and> (distinct (map Timestamp versionsA) \<longrightarrow> versionsA = versionsB))
           (fst (drain sortFunc (List (pagesClient pagesA) bucketA pfxA)))
           (fst (drain sortFunc (List (pagesClient pagesB) bucketB pfxB)))
       \<and> (list_all (\<lambda>(key, versions). distinct (map Timestamp versions))
             (fst (drain sortFunc (List (pagesClient pagesA) bucketA pfxA))) \<longrightarrow>
           fst (drain sortFunc (List (pagesClient pagesA) bucketA pfxA))
             = fst (drain sortFunc (List (pagesClient pagesB) bucketB pfxB)))"
proof -
  let ?EA = "fst (drain sortFunc (List (pagesClient pagesA) bucketA pfxA))"
  let ?EB = "fst (drain sortFunc (List (pagesClient pagesB) bucketB pfxB))"
  let ?P = "\<lambda>(keyA, versionsA) (keyB, versionsB).
             keyA = keyB
           \<and> mset versionsA = mset versionsB
           \<and> sorted (map Timestamp versionsA) \<and> sorted (map Timestamp versionsB)
           \<and> (distinct (map Timestamp versionsA) \<longrightarrow> versionsA = versionsB)"
  note A = drain_List[OF c assms(2,3), where b = bucketA and pf = pfxA]
  note B = drain_List[OF c assms(4,5), where b = bucketB and pf = pfxB]
  have calls: "mset (streamCalls pagesA) = mset (streamCalls pagesB)"
    by (rule sameRecords_calls[OF same])
  then have "set (streamCalls pagesA) = set (streamCalls pagesB)" by (metis set_mset_mset)
  then have "set (map fst ?EA) = set (map fst ?EB)" using A(2) B(2) by simp
  then have keys: "map fst ?EA = map fst ?EB"
    using strictly_sorted_unique[OF A(3) B(3)] by simp
  then have len: "length ?EA = length ?EB" by (metis length_map)
  have P: "?P (?EA ! i) (?EB ! i)" if i: "i < length ?EA" for i
  proof -
    obtain ka va where a: "?EA ! i = (ka, va)" by (cases "?EA ! i") auto
    obtain kb vb where b: "?EB ! i = (kb, vb)" by (cases "?EB ! i") auto
    have "map fst ?EA ! i = map fst ?EB ! i" using keys by simp
    then have k: "ka = kb" using a b i len by simp
    have "(ka, va) \<in> set ?EA" using a i by (metis nth_mem)
    from A(4)[OF this] have ma: "mset va = mset (recordsFor ka (streamCalls pagesA))"
      and sa: "sorted (map Timestamp va)" by auto
    have "(kb, vb) \<in> set ?EB" using b i len by (metis nth_mem)
    from B(4)[OF this] have mb: "mset vb = mset (recordsFor kb (streamCalls pagesB))"
      and sb: "sorted (map Timestamp vb)" by auto
    have m: "mset va = mset vb" using ma mb k calls by (simp add: mset_recordsFor)
    have "va = vb" if d: "distinct (map Timestamp va)"
      using sorted_distinct_unique[OF m[symmetric] sb sa d] by simp
    with a b k m sa sb show ?thesis by simp
  qed
  with len have all2: "list_all2 ?P ?EA ?EB" by (simp add: list_all2_conv_all_nth)
  have eq: "?EA = ?EB" if d: "list_all (\<lambda>(key, versions). distinct (map Timestamp versions)) ?EA"
  proof (rule nth_equalityI[OF len])
    fix i assume i: "i < length ?EA"
    then have "?EA ! i \<in> set ?EA" by (metis nth_mem)
    with d have "case ?EA ! i of (key, versions) \<Rightarrow> distinct (map Timestamp versions)"
      by (simp add: list_all_iff)
    with P[OF i] show "?EA ! i = ?EB ! i" by (auto split: prod.splits)
  qed
  from keys all2 eq show ?thesis by blast
qed

theorem drain_same_records_any_paging_witness:
  "sortFuncContract insertionSort
   \<and> wellTruncated pagesOfTwo \<and> keysAscending pagesOfTwo
   \<and> wellTruncated onePage \<and> keysAscending onePage
   \<and> sameRecords pagesOfTwo onePage
   \<and> list_all (\<lambda>(key, versions). distinct (map Timestamp versions))
       (fst (drain insertionSort (List (pagesClient pagesOfTwo) ''bucket'' None)))
   \<and> fst (drain insertionSort (List (pagesClient pagesOfTwo) ''bucket'' None))
       = fst (drain insertionSort (List (pagesClient onePage) ''bucket'' None))"
proof -
  have 1: "sortFuncContract insertionSort" by (rule insertionSort_contract)
  have 2: "wellTruncated pagesOfTwo" by code_simp
  have 3: "keysAscending pagesOfTwo" by code_simp
  have 4: "wellTruncated onePage" by code_simp
  have 5: "keysAscending onePage" by code_simp
  have 6: "sameRecords pagesOfTwo onePage"
    by (simp add: sameRecords_def pagesOfTwo_def onePage_def)
  have 7: "list_all (\<lambda>(key, versions). distinct (map Timestamp versions))
       (fst (drain insertionSort (List (pagesClient pagesOfTwo) ''bucket'' None)))"
    by code_simp
  from drain_same_records_any_paging[OF 1 2 3 4 5 6,
      where bucketA = "''bucket''" and pfxA = None and bucketB = "''bucket''" and pfxB = None] 7
  have "fst (drain insertionSort (List (pagesClient pagesOfTwo) ''bucket'' None))
       = fst (drain insertionSort (List (pagesClient onePage) ''bucket'' None))"
    by blast
  with 1 2 3 4 5 6 7 show ?thesis by blast
qed

text \<open>
  Claim C7, as stated, fails. A key has a version and a delete marker of the same
  time. With the insertion sort, which leaves equal records in their order of
  arrival, the one-page listing gives the history version, marker (a page stores its
  versions before its delete markers), and the listing cut after the marker gives
  marker, version. Both listings are in key order within and across pages and hold
  the same records. For a reference time after both records the program then skips
  the key in one run and copies the version in the other.
\<close>

theorem drain_depends_on_paging_at_ties:
  "sortFuncContract insertionSort
   \<and> wellTruncated tiedOnePage \<and> keysAscending tiedOnePage \<and> sortedWithin tiedOnePage
   \<and> wellTruncated tiedTwoPages \<and> keysAscending tiedTwoPages \<and> sortedWithin tiedTwoPages
   \<and> sameRecords tiedOnePage tiedTwoPages
   \<and> set (fst (drain insertionSort (List (pagesClient tiedOnePage) ''bucket'' None)))
       \<noteq> set (fst (drain insertionSort (List (pagesClient tiedTwoPages) ''bucket'' None)))
   \<and> fst (mainLoop (pagesClient tiedOnePage) insertionSort ''bucket'' 5
          (List (pagesClient tiedOnePage) ''bucket'' None)) = [(''k'', Skip)]
   \<and> fst (mainLoop (pagesClient tiedTwoPages) insertionSort ''bucket'' 5
          (List (pagesClient tiedTwoPages) ''bucket'' None))
       = [(''k'', Copy ''bucket'' ''bucket'' ''k'' ''v1'')]"
proof -
  have 1: "sortFuncContract insertionSort" by (rule insertionSort_contract)
  have 2: "wellTruncated tiedOnePage \<and> keysAscending tiedOnePage \<and> sortedWithin tiedOnePage"
    by code_simp
  have 3: "wellTruncated tiedTwoPages \<and> keysAscending tiedTwoPages \<and> sortedWithin tiedTwoPages"
    by code_simp
  have 4: "sameRecords tiedOnePage tiedTwoPages"
    by (simp add: sameRecords_def tiedOnePage_def tiedTwoPages_def)
  have 5: "set (fst (drain insertionSort (List (pagesClient tiedOnePage) ''bucket'' None)))
       \<noteq> set (fst (drain insertionSort (List (pagesClient tiedTwoPages) ''bucket'' None)))"
    by code_simp
  have 6: "fst (mainLoop (pagesClient tiedOnePage) insertionSort ''bucket'' 5
          (List (pagesClient tiedOnePage) ''bucket'' None)) = [(''k'', Skip)]"
    by code_simp
  have 7: "fst (mainLoop (pagesClient tiedTwoPages) insertionSort ''bucket'' 5
          (List (pagesClient tiedTwoPages) ''bucket'' None))
       = [(''k'', Copy ''bucket'' ''bucket'' ''k'' ''v1'')]"
    by code_simp
  from 1 2 3 4 5 6 7 show ?thesis by blast
qed

section \<open>The iterator and the decision together: claims\<close>




text \<open>
  Claim C10. Take any history the iterator emits, from any storage client, with a
  sort meeting the contract of \<^verbatim>\<open>slices.SortFunc\<close>. If its record with
  \<open>IsLatest = True\<close> is a delete marker, and the version at the reference time is
  the zero \<open>ObjectVersion\<close> (the key was absent) or is a delete marker, then the
  decision is \<open>Skip\<close>: neither \<open>Delete\<close> nor \<open>Copy\<close> is called. The iterator
  stores every delete marker with the empty etag, which is also the etag of the zero
  \<open>ObjectVersion\<close>.
\<close>

theorem absent_and_deleted_both_skip:
  assumes "sortFuncContract sortFunc"
    and "(key, versions) \<in> set (fst (drain sortFunc (List s3Client bucketName pfx)))"
    and "v \<in> set versions" and "IsLatest v"
    and "\<forall>u \<in> set versions. IsLatest u \<longrightarrow> u = v"
    and "Operation v = OperationTypeDelete"
    and "versionAtTimestamp referenceTimestamp versions = ZeroObjectVersion
         \<or> Operation (versionAtTimestamp referenceTimestamp versions) = OperationTypeDelete"
  shows "restoreKey bucketName referenceTimestamp key versions = Skip"
proof -
  let ?at = "versionAtTimestamp referenceTimestamp versions"
  have g: "goodMap (pageObjectsWithVersions (List s3Client bucketName pfx))"
    by (simp add: List_def goodMap_def)
  from drain_good[OF assms(1) g assms(2)]
  have bare: "\<forall>u \<in> set versions. Operation u = OperationTypeDelete \<longrightarrow> ETag u = []"
    by (simp add: goodSlice_def)
  with assms(3,6) have ev: "ETag v = []" by blast
  have "ETag ?at = []"
  proof (cases "filter (\<lambda>u. Timestamp u < referenceTimestamp) versions = []")
    case True
    then show ?thesis by (simp add: versionAtTimestamp_filter ZeroObjectVersion_def)
  next
    case False
    then have "?at \<in> set versions" using versionAtTimestamp_in_set by blast
    with assms(7) bare show ?thesis by (auto simp: ZeroObjectVersion_def)
  qed
  with ev latestVersion_unique[OF assms(3-5), of referenceTimestamp]
  show ?thesis by (simp add: restoreKey_Skip_iff)
qed

theorem absent_and_deleted_both_skip_witness:
  "sortFuncContract insertionSort
   \<and> (''c'', [\<lparr>VersionID = ''c1'', Operation = OperationTypePut, Timestamp = 5,
               IsLatest = False, ETag = ''ec1''\<rparr>,
              \<lparr>VersionID = ''c2'', Operation = OperationTypeDelete, Timestamp = 25,
               IsLatest = True, ETag = []\<rparr>])
       \<in> set (fst (drain insertionSort (List (pagesClient pagesOfTwo) ''bucket'' None)))
   \<and> versionAtTimestamp 3
        [\<lparr>VersionID = ''c1'', Operation = OperationTypePut, Timestamp = 5,
          IsLatest = False, ETag = ''ec1''\<rparr>,
         \<lparr>VersionID = ''c2'', Operation = OperationTypeDelete, Timestamp = 25,
          IsLatest = True, ETag = []\<rparr>] = ZeroObjectVersion
   \<and> restoreKey ''bucket'' 3 ''c''
        [\<lparr>VersionID = ''c1'', Operation = OperationTypePut, Timestamp = 5,
          IsLatest = False, ETag = ''ec1''\<rparr>,
         \<lparr>VersionID = ''c2'', Operation = OperationTypeDelete, Timestamp = 25,
          IsLatest = True, ETag = []\<rparr>] = Skip"
proof -
  let ?marker = "\<lparr>VersionID = ''c2'', Operation = OperationTypeDelete, Timestamp = 25,
                  IsLatest = True, ETag = []\<rparr>"
  let ?h = "[\<lparr>VersionID = ''c1'', Operation = OperationTypePut, Timestamp = 5,
              IsLatest = False, ETag = ''ec1''\<rparr>, ?marker]"
  have 1: "sortFuncContract insertionSort" by (rule insertionSort_contract)
  have 2: "(''c'', ?h) \<in> set (fst (drain insertionSort (List (pagesClient pagesOfTwo) ''bucket'' None)))"
    by code_simp
  have 3: "?marker \<in> set ?h" by simp
  have 4: "IsLatest ?marker" by simp
  have 5: "\<forall>u \<in> set ?h. IsLatest u \<longrightarrow> u = ?marker" by simp
  have 6: "Operation ?marker = OperationTypeDelete" by simp
  have z: "versionAtTimestamp 3 ?h = ZeroObjectVersion" by (simp add: versionAtTimestamp_def)
  then have 7: "versionAtTimestamp 3 ?h = ZeroObjectVersion
         \<or> Operation (versionAtTimestamp 3 ?h) = OperationTypeDelete" by blast
  from absent_and_deleted_both_skip[OF 1 2 3 4 5 6 7] 1 2 z show ?thesis by blast
qed

section \<open>The prefix flag\<close>

text \<open>
  Claim C5 does not hold of the code. \<^verbatim>\<open>main\<close> parses the flag \<^verbatim>\<open>-prefix\<close>
  ("only work on a given prefix") and never reads it: the iterator is created with
  no prefix. On a bucket with the keys \<^verbatim>\<open>a/x\<close> and \<^verbatim>\<open>b/y\<close>, both written after the
  reference time, a run with \<^verbatim>\<open>-prefix a/\<close> deletes both keys, although the storage
  service, asked for the prefix \<^verbatim>\<open>a/\<close>, lists \<^verbatim>\<open>a/x\<close> alone.
\<close>

theorem main_ignores_prefix_flag:
  "main (\<lambda>s. Some 0) (Some (bucketClient twoPrefixes [])) insertionSort False ''a/''
        [''bucket'', ''1970-01-01T00:00:00Z'']
     = ([(''a/x'', Delete ''bucket'' ''a/x''), (''b/y'', Delete ''bucket'' ''b/y'')], 0)
   \<and> map (map_option (map vKey \<circ> Versions))
       (listObjectVersions (bucketClient twoPrefixes []) ''bucket'' (Some ''a/''))
     = [Some [''a/x'']]"
  by code_simp

end
